theory Spec2Isabelle
  imports Main "HOL-Library.Monad_Syntax" "HOL-Library.Multiset"
begin

section \<open>The entry store of augeas.c\<close>

text \<open>
  The store of \<^verbatim>\<open>augeas.c\<close> is one circular doubly-linked list of heap cells
  (\<^verbatim>\<open>struct aug_entry\<close>), reached through the static pointer \<^verbatim>\<open>head\<close>.
  The model keeps the pointers: a cell lives at an address, the heap maps addresses to
  cells, and every C statement that reads or writes through a pointer is one step of the
  model. A result \<open>None\<close> stands for undefined behaviour (a read or write through a
  pointer that is null or not allocated) or for a loop that never ends.

  A \<open>string\<close> stands for the bytes of a C string before its terminator; a
  \<^verbatim>\<open>const char *\<close> that may be null is a \<open>string option\<close>.
\<close>

subsection \<open>Strings and paths\<close>

definition SEP :: char where
  "SEP = CHR ''/''"

definition P_SYSTEM :: string where
  "P_SYSTEM = ''/system''"

definition P_SYSTEM_CONFIG :: string where
  "P_SYSTEM_CONFIG = ''/system/config''"

text \<open>
  Modelled from the spec: the macros \<^verbatim>\<open>STREQ\<close>, \<^verbatim>\<open>STREQLEN\<close> and
  \<^verbatim>\<open>STRNEQLEN\<close> of \<^verbatim>\<open>internal.h\<close>, which is not among the sources
  ("equality/length-bounded string comparison"): \<^verbatim>\<open>strcmp\<close> and \<^verbatim>\<open>strncmp\<close>
  compared with zero.
\<close>

definition STREQ :: "string \<Rightarrow> string \<Rightarrow> bool" where
  "STREQ a b = (a = b)"

definition STREQLEN :: "string \<Rightarrow> string \<Rightarrow> nat \<Rightarrow> bool" where
  "STREQLEN a b n = (take n a = take n b)"

definition STRNEQLEN :: "string \<Rightarrow> string \<Rightarrow> nat \<Rightarrow> bool" where
  "STRNEQLEN a b n = (take n a \<noteq> take n b)"

text \<open>
  Modelled from the spec: \<^verbatim>\<open>pathlen\<close> of \<^verbatim>\<open>internal.h\<close>, which is not among the
  sources: "length of p excluding a single trailing separator, if p is longer than one
  character (the root path keeps its separator)".
\<close>

definition pathlen :: "string \<Rightarrow> nat" where
  "pathlen p = (if 1 < length p \<and> last p = SEP then length p - 1 else length p)"

text \<open>
  Modelled from the spec: \<^verbatim>\<open>pathprefix\<close> of \<^verbatim>\<open>internal.h\<close>, which is not among
  the sources: "true iff a is a prefix of b at a separator boundary, i.e. b equals a, or b
  starts with a followed immediately by a separator".
\<close>

definition pathprefix :: "string \<Rightarrow> string \<Rightarrow> bool" where
  "pathprefix a b = (b = a \<or> take (Suc (length a)) b = a @ [SEP])"

text \<open>
  \<^verbatim>\<open>s[i]\<close> on a C string: a byte of the string, or the terminator (\<open>None\<close>) at and
  after its end. The source reads \<^verbatim>\<open>s[i]\<close> only behind a \<^verbatim>\<open>strncmp\<close> that has
  found \<open>i\<close> equal bytes, so \<open>i\<close> is never beyond the terminator.
\<close>

definition char_at :: "string \<Rightarrow> nat \<Rightarrow> char option" where
  "char_at s i = (if i < length s then Some (s ! i) else None)"

text \<open>\<^verbatim>\<open>strrchr(s, c)\<close> as the offset of the last \<open>c\<close> in \<open>s\<close>, \<open>None\<close> for the null result.\<close>

fun strrchr :: "string \<Rightarrow> char \<Rightarrow> nat option" where
  "strrchr [] c = None"
| "strrchr (x # xs) c =
     (case strrchr xs c of
        Some i \<Rightarrow> Some (Suc i)
      | None \<Rightarrow> (if x = c then Some 0 else None))"

subsection \<open>Heap cells and the store\<close>

type_synonym addr = nat

abbreviation NULL :: addr where
  "NULL \<equiv> 0"

text \<open>\<^verbatim>\<open>struct aug_entry\<close>; \<^verbatim>\<open>calloc\<close> hands out a cell of null pointers.\<close>

record aug_entry =
  e_path :: "string option"
  e_value :: "string option"
  e_next :: addr
  e_prev :: addr

definition zero_entry :: aug_entry where
  "zero_entry = \<lparr>e_path = None, e_value = None, e_next = NULL, e_prev = NULL\<rparr>"

text \<open>
  The global state: the heap of entry cells, the static \<^verbatim>\<open>head\<close>, and the allocator.
  The allocator hands out the address \<open>brk\<close> and moves it up, so a new cell is never one that
  is still in use; \<open>alloc_ok\<close> lists the outcomes of the coming allocation requests
  (\<open>False\<close>: the request fails and yields a null pointer), and once the list is used up every
  request succeeds. Path and value strings are stored in the cell itself: the store owns a
  copy of each (by \<^verbatim>\<open>strdup\<close>), so no two cells share one.
\<close>

record store =
  heap :: "addr \<Rightarrow> aug_entry option"
  head :: addr
  brk :: addr
  alloc_ok :: "bool list"

definition empty_store :: "bool list \<Rightarrow> store" where
  "empty_store oks = \<lparr>heap = (\<lambda>_. None), head = NULL, brk = 1, alloc_ok = oks\<rparr>"

definition next_alloc :: "store \<Rightarrow> bool \<times> store" where
  "next_alloc s =
     (case alloc_ok s of
        [] \<Rightarrow> (True, s)
      | ok # oks \<Rightarrow> (ok, s\<lparr>alloc_ok := oks\<rparr>))"

definition calloc_entry :: "store \<Rightarrow> addr \<times> store" where
  "calloc_entry s =
     (let (ok, s1) = next_alloc s in
      if ok then (brk s1, s1\<lparr>heap := (heap s1)(brk s1 \<mapsto> zero_entry), brk := Suc (brk s1)\<rparr>)
      else (NULL, s1))"

definition strdup :: "string \<Rightarrow> store \<Rightarrow> string option \<times> store" where
  "strdup str s = (let (ok, s1) = next_alloc s in (if ok then Some str else None, s1))"

definition free_entry :: "addr \<Rightarrow> store \<Rightarrow> store" where
  "free_entry a s = s\<lparr>heap := (heap s)(a := None)\<rparr>"

text \<open>Reading and writing through a pointer.\<close>

definition deref :: "store \<Rightarrow> addr \<Rightarrow> aug_entry option" where
  "deref s a = (if a = NULL then None else heap s a)"

definition upd :: "addr \<Rightarrow> (aug_entry \<Rightarrow> aug_entry) \<Rightarrow> store \<Rightarrow> store option" where
  "upd a f s = do { e \<leftarrow> deref s a; Some (s\<lparr>heap := (heap s)(a \<mapsto> f e)\<rparr>) }"

subsection \<open>The list primitives\<close>

text \<open>\<^verbatim>\<open>aug_entry_find\<close>: the \<^verbatim>\<open>do ... while (p != head)\<close> scan, entered at \<^verbatim>\<open>head\<close>.\<close>

partial_function (option) find_loop :: "string \<Rightarrow> store \<Rightarrow> addr \<Rightarrow> addr option" where
  "find_loop path s p =
     do {
       e \<leftarrow> deref s p;
       q \<leftarrow> e_path e;
       if pathprefix path q \<and> pathprefix q path then Some p
       else if e_next e = head s then Some NULL
       else find_loop path s (e_next e)
     }"

declare find_loop.simps [code]

definition aug_entry_find :: "string \<Rightarrow> store \<Rightarrow> addr option" where
  "aug_entry_find path s = find_loop path s (head s)"

text \<open>\<^verbatim>\<open>aug_entry_insert\<close>: a new cell for \<open>path\<close>, spliced in before the cell \<open>nxt\<close>.\<close>

definition aug_entry_insert :: "string \<Rightarrow> addr \<Rightarrow> store \<Rightarrow> (addr \<times> store) option" where
  "aug_entry_insert path nxt s =
     (let (e, s1) = calloc_entry s in
      if e = NULL then Some (NULL, s1)
      else
        let (q, s2) = strdup path s1 in
        if q = None then Some (NULL, free_entry e s2)
        else do {
          s3 \<leftarrow> upd e (\<lambda>c. c\<lparr>e_path := q\<rparr>) s2;
          s4 \<leftarrow> upd e (\<lambda>c. c\<lparr>e_next := nxt\<rparr>) s3;
          n \<leftarrow> deref s4 nxt;
          s5 \<leftarrow> upd e (\<lambda>c. c\<lparr>e_prev := e_prev n\<rparr>) s4;
          c1 \<leftarrow> deref s5 e;
          s6 \<leftarrow> upd (e_next c1) (\<lambda>c. c\<lparr>e_prev := e\<rparr>) s5;
          c2 \<leftarrow> deref s6 e;
          s7 \<leftarrow> upd (e_prev c2) (\<lambda>c. c\<lparr>e_next := e\<rparr>) s6;
          Some (e, s7)
        })"

text \<open>
  \<^verbatim>\<open>aug_entry_make\<close>: the loop over the positions of the copied path, which has been
  cut at \<^verbatim>\<open>pathlen\<close>. At each separator the path is cut there for the lookup and
  restored afterwards. The result \<open>False\<close> is the early \<^verbatim>\<open>return NULL\<close>.
\<close>

function make_loop :: "string \<Rightarrow> nat \<Rightarrow> store \<Rightarrow> (bool \<times> store) option" where
  "make_loop path pos s =
     (if pos < length path then
        (if path ! pos = SEP then
           do {
             f \<leftarrow> aug_entry_find (take pos path) s;
             if f = NULL then
               do {
                 (e, s1) \<leftarrow> aug_entry_insert (take pos path) (head s) s;
                 if e = NULL then Some (False, s1) else make_loop path (Suc pos) s1
               }
             else make_loop path (Suc pos) s
           }
         else make_loop path (Suc pos) s)
      else Some (True, s))"
  by pat_completeness auto
termination
  by (relation "measure (\<lambda>(path, pos, s). length path - pos)") auto

declare make_loop.simps [simp del]

text \<open>
  The loop starts at \<^verbatim>\<open>path + 1\<close>: for the empty string that is one past the
  terminator of the copy, and \<^verbatim>\<open>*pos\<close> reads outside it.
\<close>

definition aug_entry_make :: "string \<Rightarrow> addr \<Rightarrow> store \<Rightarrow> (addr \<times> store) option" where
  "aug_entry_make p nxt s =
     (let path = take (pathlen p) p in
      if path = [] then None
      else do {
        (ok, s1) \<leftarrow> make_loop path 1 s;
        if ok then aug_entry_insert path nxt s1 else Some (NULL, s1)
      })"

text \<open>\<^verbatim>\<open>aug_entry_free\<close>: unsplice the cell and release it with its strings.\<close>

definition aug_entry_free :: "addr \<Rightarrow> store \<Rightarrow> store option" where
  "aug_entry_free e s =
     do {
       c \<leftarrow> deref s e;
       s1 \<leftarrow> upd (e_prev c) (\<lambda>x. x\<lparr>e_next := e_next c\<rparr>) s;
       c1 \<leftarrow> deref s1 e;
       s2 \<leftarrow> upd (e_next c1) (\<lambda>x. x\<lparr>e_prev := e_prev c1\<rparr>) s1;
       Some (free_entry e s2)
     }"

subsection \<open>The public operations\<close>

text \<open>
  The providers are external (\<^verbatim>\<open>augp_spec\<close> is declared \<^verbatim>\<open>extern\<close>): a provider
  is three functions on the store, each returning a status.
\<close>

record aug_provider =
  prov_init :: "store \<Rightarrow> (int \<times> store) option"
  prov_load :: "store \<Rightarrow> (int \<times> store) option"
  prov_save :: "store \<Rightarrow> (int \<times> store) option"

fun init_providers :: "aug_provider list \<Rightarrow> store \<Rightarrow> (int \<times> store) option" where
  "init_providers [] s = Some (0, s)"
| "init_providers (prov # provs) s =
     do {
       (r, s1) \<leftarrow> prov_init prov s;
       if r = -1 then Some (-1, s1)
       else do {
         (r2, s2) \<leftarrow> prov_load prov s1;
         if r2 = -1 then Some (-1, s2) else init_providers provs s2
       }
     }"

definition aug_init :: "aug_provider list \<Rightarrow> store \<Rightarrow> (int \<times> store) option" where
  "aug_init providers s =
     (if head s = NULL then
        (let (h, s1) = calloc_entry s;
             s2 = s1\<lparr>head := h\<rparr>;
             (e, s3) = calloc_entry s2
         in if h = NULL \<or> e = NULL then Some (-1, s3)
            else do {
              s4 \<leftarrow> upd h (\<lambda>c. c\<lparr>e_path := Some P_SYSTEM\<rparr>) s3;
              s5 \<leftarrow> upd h (\<lambda>c. c\<lparr>e_value := None\<rparr>) s4;
              s6 \<leftarrow> upd h (\<lambda>c. c\<lparr>e_next := e\<rparr>) s5;
              s7 \<leftarrow> upd h (\<lambda>c. c\<lparr>e_prev := e\<rparr>) s6;
              s8 \<leftarrow> upd e (\<lambda>c. c\<lparr>e_path := Some P_SYSTEM_CONFIG\<rparr>) s7;
              s9 \<leftarrow> upd e (\<lambda>c. c\<lparr>e_value := None\<rparr>) s8;
              s10 \<leftarrow> upd e (\<lambda>c. c\<lparr>e_next := h\<rparr>) s9;
              s11 \<leftarrow> upd e (\<lambda>c. c\<lparr>e_prev := h\<rparr>) s10;
              init_providers providers s11
            })
      else init_providers providers s)"


definition aug_set :: "string \<Rightarrow> string \<Rightarrow> store \<Rightarrow> (int \<times> store) option" where
  "aug_set path val s =
     do {
       f \<leftarrow> aug_entry_find path s;
       (p, s1) \<leftarrow> (if f = NULL then aug_entry_make path (head s) s else Some (f, s));
       if p = NULL then Some (-1, s1)
       else do {
         _ \<leftarrow> deref s1 p;
         let (v, s2) = strdup val s1;
         s3 \<leftarrow> upd p (\<lambda>c. c\<lparr>e_value := v\<rparr>) s2;
         if v = None then Some (-1, s3) else Some (0, s3)
       }
     }"

definition aug_exists :: "string \<Rightarrow> store \<Rightarrow> int option" where
  "aug_exists path s =
     do { p \<leftarrow> aug_entry_find path s; Some (if p \<noteq> NULL then 1 else 0) }"

definition aug_insert :: "string \<Rightarrow> string \<Rightarrow> store \<Rightarrow> (int \<times> store) option" where
  "aug_insert path sibling st =
     (if STREQ path sibling then Some (-1, st)
      else
        (case (strrchr path SEP, strrchr sibling SEP) of
           (Some pdir, Some sdir) \<Rightarrow>
             if pdir \<noteq> sdir then Some (-1, st)
             else if STRNEQLEN path sibling pdir then Some (-1, st)
             else do {
               s \<leftarrow> aug_entry_find sibling st;
               if s = NULL then Some (-1, st)
               else do {
                 p \<leftarrow> aug_entry_find path st;
                 if p = NULL then
                   do {
                     (e, st1) \<leftarrow> aug_entry_make path s st;
                     Some (if e = NULL then -1 else 0, st1)
                   }
                 else do {
                   c1 \<leftarrow> deref st p;
                   st1 \<leftarrow> upd (e_prev c1) (\<lambda>c. c\<lparr>e_next := e_next c1\<rparr>) st;
                   c2 \<leftarrow> deref st1 p;
                   st2 \<leftarrow> upd (e_next c2) (\<lambda>c. c\<lparr>e_prev := e_prev c2\<rparr>) st1;
                   c3 \<leftarrow> deref st2 s;
                   st3 \<leftarrow> upd (e_prev c3) (\<lambda>c. c\<lparr>e_next := p\<rparr>) st2;
                   c4 \<leftarrow> deref st3 s;
                   st4 \<leftarrow> upd p (\<lambda>c. c\<lparr>e_prev := e_prev c4\<rparr>) st3;
                   st5 \<leftarrow> upd p (\<lambda>c. c\<lparr>e_next := s\<rparr>) st4;
                   st6 \<leftarrow> upd s (\<lambda>c. c\<lparr>e_prev := p\<rparr>) st5;
                   Some (0, st6)
                 }
               }
             }
         | _ \<Rightarrow> Some (-1, st)))"

text \<open>
  \<^verbatim>\<open>aug_rm\<close>: the loop variable \<open>p\<close> runs from \<^verbatim>\<open>head->next->next\<close> until it
  is \<^verbatim>\<open>head->next\<close>, and each round examines (and may free) \<^verbatim>\<open>p->prev\<close>.
\<close>

definition rm_match :: "string \<Rightarrow> string \<Rightarrow> bool" where
  "rm_match path q =
     (let plen = pathlen path in
      STREQLEN q path (pathlen path)
      \<and> (char_at q plen = None \<or> char_at q plen = Some (CHR ''/''))
      \<and> \<not> STREQ P_SYSTEM q
      \<and> \<not> STREQ P_SYSTEM_CONFIG q)"

partial_function (option) rm_loop :: "string \<Rightarrow> addr \<Rightarrow> int \<Rightarrow> store \<Rightarrow> (int \<times> store) option" where
  "rm_loop path p cnt s =
     do {
       h \<leftarrow> deref s (head s);
       if p = e_next h then Some (cnt, s)
       else do {
         c \<leftarrow> deref s p;
         v \<leftarrow> deref s (e_prev c);
         q \<leftarrow> e_path v;
         if rm_match path q then
           do {
             s1 \<leftarrow> aug_entry_free (e_prev c) s;
             c1 \<leftarrow> deref s1 p;
             rm_loop path (e_next c1) (cnt + 1) s1
           }
         else rm_loop path (e_next c) cnt s
       }
     }"

declare rm_loop.simps [code]

definition aug_rm :: "string \<Rightarrow> store \<Rightarrow> (int \<times> store) option" where
  "aug_rm path s =
     do {
       h \<leftarrow> deref s (head s);
       n \<leftarrow> deref s (e_next h);
       rm_loop path (e_next n) 0 s
     }"

text \<open>
  \<^verbatim>\<open>aug_ls\<close>: one pass of the inner \<^verbatim>\<open>do ... while\<close>; \<open>children\<close> is the array
  behind \<^verbatim>\<open>*children\<close> in the copying pass (\<open>None\<close> in the counting pass). A write
  outside the array is undefined.
\<close>

definition ls_child :: "string \<Rightarrow> string \<Rightarrow> bool" where
  "ls_child path q =
     (pathprefix path q
      \<and> length q > pathlen path + 1
      \<and> SEP \<notin> set (drop (pathlen path + 1) q))"

partial_function (option) ls_loop ::
  "string \<Rightarrow> store \<Rightarrow> addr \<Rightarrow> int \<Rightarrow> string option list option
     \<Rightarrow> (int \<times> string option list option) option" where
  "ls_loop path s p cnt children =
     do {
       e \<leftarrow> deref s p;
       q \<leftarrow> e_path e;
       (cnt1, children1) \<leftarrow>
         (if ls_child path q then
            (case children of
               None \<Rightarrow> Some (cnt + 1, None)
             | Some arr \<Rightarrow>
                 if 0 \<le> cnt \<and> nat cnt < length arr
                 then Some (cnt + 1, Some (arr[nat cnt := Some q]))
                 else None)
          else Some (cnt, children));
       if e_next e = head s then Some (cnt1, children1)
       else ls_loop path s (e_next e) cnt1 children1
     }"

declare ls_loop.simps [code]

text \<open>
  \<open>want\<close> says whether the caller passed a non-null \<^verbatim>\<open>children\<close>. The array for the
  result is one more allocation request; it is the caller's, not a cell of the store.
\<close>

definition aug_ls :: "string \<Rightarrow> bool \<Rightarrow> store \<Rightarrow> ((int \<times> string option list option) \<times> store) option" where
  "aug_ls path want s =
     do {
       (cnt, _) \<leftarrow> ls_loop path s (head s) 0 None;
       if \<not> want then Some ((cnt, None), s)
       else
         let (ok, s1) = next_alloc s in
         if \<not> ok then Some ((-1, None), s1)
         else do {
           (cnt2, children) \<leftarrow> ls_loop path s1 (head s1) 0 (Some (replicate (nat cnt) None));
           Some ((cnt2, children), s1)
         }
     }"

text \<open>
  Modelled from the spec: \<^verbatim>\<open>fnmatch\<close> of the C library, which the source calls as
  \<^verbatim>\<open>fnmatch(pattern, p->path, FNM_NOESCAPE)\<close>: "shell-style glob semantics
  (\<^verbatim>\<open>*\<close>, \<^verbatim>\<open>?\<close>, bracket classes; backslash is NOT treated as an escape
  character)". The flags act as POSIX defines them: only under \<^verbatim>\<open>FNM_PATHNAME\<close>
  must a slash in the string be matched by a slash in the pattern, and without it a slash is
  an ordinary character for \<^verbatim>\<open>*\<close>, \<^verbatim>\<open>?\<close> and brackets. A bracket expression
  is a list of characters and ranges, negated by a leading \<^verbatim>\<open>!\<close> or \<^verbatim>\<open>^\<close>; the
  named classes (\<^verbatim>\<open>[:alpha:]\<close>) and \<^verbatim>\<open>FNM_PERIOD\<close> are outside this model.
\<close>

datatype fnm_flag = FNM_NOESCAPE | FNM_PATHNAME

definition FNM_NOMATCH :: int where
  "FNM_NOMATCH = 1"

fun bracket_items :: "string \<Rightarrow> (char \<times> char) list \<Rightarrow> ((char \<times> char) list \<times> string) option" where
  "bracket_items [] acc = None"
| "bracket_items [c] acc =
     (if c = CHR '']'' \<and> acc \<noteq> [] then Some (acc, []) else None)"
| "bracket_items [c, d] acc =
     (if c = CHR '']'' \<and> acc \<noteq> [] then Some (acc, [d])
      else bracket_items [d] (acc @ [(c, c)]))"
| "bracket_items (c # d # e # ds) acc =
     (if c = CHR '']'' \<and> acc \<noteq> [] then Some (acc, d # e # ds)
      else if d = CHR ''-'' \<and> e \<noteq> CHR '']'' then bracket_items ds (acc @ [(c, e)])
      else bracket_items (d # e # ds) (acc @ [(c, c)]))"

definition parse_bracket :: "string \<Rightarrow> (bool \<times> (char \<times> char) list \<times> string) option" where
  "parse_bracket cs =
     (case cs of
        [] \<Rightarrow> None
      | c # cs1 \<Rightarrow>
          if c = CHR ''!'' \<or> c = CHR ''^''
          then map_option (\<lambda>(rs, rest). (True, rs, rest)) (bracket_items cs1 [])
          else map_option (\<lambda>(rs, rest). (False, rs, rest)) (bracket_items cs []))"

definition in_ranges :: "char \<Rightarrow> (char \<times> char) list \<Rightarrow> bool" where
  "in_ranges c rs =
     list_ex (\<lambda>(lo, hi). (of_char lo :: nat) \<le> of_char c \<and> (of_char c :: nat) \<le> of_char hi) rs"

lemma bracket_items_shorter:
  "bracket_items cs acc = Some (rs, rest) \<Longrightarrow> length rest < length cs"
proof (induction cs acc rule: bracket_items.induct)
  case (1 acc)
  then show ?case by simp
next
  case (2 c acc)
  then show ?case by (auto split: if_splits)
next
  case (3 c d acc)
  then show ?case by (auto split: if_splits)
next
  case (4 c d e ds acc)
  show ?case
  proof (cases "c = CHR '']'' \<and> acc \<noteq> []")
    case True
    with "4.prems" show ?thesis by auto
  next
    case False
    note nb = this
    show ?thesis
    proof (cases "d = CHR ''-'' \<and> e \<noteq> CHR '']''")
      case True
      with nb "4.prems" have "bracket_items ds (acc @ [(c, e)]) = Some (rs, rest)"
        by (simp split: if_splits)
      from "4.IH"(1)[OF nb True this] show ?thesis by simp
    next
      case False
      with nb "4.prems" have "bracket_items (d # e # ds) (acc @ [(c, c)]) = Some (rs, rest)"
        by (simp split: if_splits)
      from "4.IH"(2)[OF nb False this] show ?thesis by simp
    qed
  qed
qed

lemma parse_bracket_shorter:
  "parse_bracket cs = Some (neg, rs, rest) \<Longrightarrow> length rest < length cs"
proof (cases cs)
  case Nil
  assume "parse_bracket cs = Some (neg, rs, rest)"
  with Nil show ?thesis by (simp add: parse_bracket_def)
next
  case (Cons c cs1)
  assume p: "parse_bracket cs = Some (neg, rs, rest)"
  show ?thesis
  proof (cases "c = CHR ''!'' \<or> c = CHR ''^''")
    case True
    with p Cons have "bracket_items cs1 [] = Some (rs, rest)"
      by (auto simp: parse_bracket_def)
    from bracket_items_shorter[OF this] Cons show ?thesis by simp
  next
    case False
    with p Cons have "bracket_items cs [] = Some (rs, rest)"
      by (auto simp: parse_bracket_def)
    from bracket_items_shorter[OF this] show ?thesis .
  qed
qed

function glob :: "fnm_flag list \<Rightarrow> string \<Rightarrow> string \<Rightarrow> bool" where
  "glob flags [] str = (str = [])"
| "glob flags (p # ps) [] = (p = CHR ''*'' \<and> glob flags ps [])"
| "glob flags (p # ps) (c # cs) =
     (if p = CHR ''*'' then
        glob flags ps (c # cs)
        \<or> (\<not> (FNM_PATHNAME \<in> set flags \<and> c = CHR ''/'') \<and> glob flags (p # ps) cs)
      else if p = CHR ''?'' then
        \<not> (FNM_PATHNAME \<in> set flags \<and> c = CHR ''/'') \<and> glob flags ps cs
      else if p = CHR ''['' then
        (case parse_bracket ps of
           None \<Rightarrow> c = CHR ''['' \<and> glob flags ps cs
         | Some (neg, rs, rest) \<Rightarrow>
             \<not> (FNM_PATHNAME \<in> set flags \<and> c = CHR ''/'')
             \<and> (in_ranges c rs \<noteq> neg) \<and> glob flags rest cs)
      else if p = CHR 0x5C \<and> FNM_NOESCAPE \<notin> set flags then
        (case ps of
           [] \<Rightarrow> False
         | e # ps1 \<Rightarrow> c = e \<and> glob flags ps1 cs)
      else p = c \<and> glob flags ps cs)"
  by pat_completeness auto
termination
proof (relation "measure (\<lambda>(flags, pat, str). length pat + length str)", goal_cases)
  case 1
  then show ?case by simp
next
  case (2 flags p ps)
  then show ?case by simp
next
  case (3 flags p ps c cs)
  then show ?case by simp
next
  case (4 flags p ps c cs)
  then show ?case by simp
next
  case (5 flags p ps c cs)
  then show ?case by simp
next
  case (6 flags p ps c cs)
  then show ?case by simp
next
  case (7 flags p ps c cs x2 x y x1 x2a)
  then show ?case using parse_bracket_shorter[of ps x x1 x2a] by simp
next
  case (8 flags p ps c cs x21 x22)
  then show ?case by simp
next
  case (9 flags p ps c cs)
  then show ?case by simp
qed

definition fnmatch :: "string \<Rightarrow> string \<Rightarrow> fnm_flag list \<Rightarrow> int" where
  "fnmatch pattern str flags = (if glob flags pattern str then 0 else FNM_NOMATCH)"

text \<open>
  \<^verbatim>\<open>aug_match\<close>: \<open>matches\<close> is the caller's array, \<open>msize\<close> (the source's \<^verbatim>\<open>size\<close>) the capacity passed with it.
  A write outside the array is undefined.
\<close>

partial_function (option) match_loop ::
  "string \<Rightarrow> int \<Rightarrow> store \<Rightarrow> addr \<Rightarrow> int \<Rightarrow> string option list
     \<Rightarrow> (int \<times> string option list) option" where
  "match_loop pattern msize s p cnt matches =
     do {
       e \<leftarrow> deref s p;
       q \<leftarrow> e_path e;
       (cnt1, matches1) \<leftarrow>
         (if fnmatch pattern q [FNM_NOESCAPE] = 0 then
            (if cnt < msize then
               (if 0 \<le> cnt \<and> nat cnt < length matches
                then Some (cnt + 1, matches[nat cnt := Some q])
                else None)
             else Some (cnt + 1, matches))
          else Some (cnt, matches));
       if e_next e = head s then Some (cnt1, matches1)
       else match_loop pattern msize s (e_next e) cnt1 matches1
     }"

declare match_loop.simps [code]

definition aug_match :: "string \<Rightarrow> string option list \<Rightarrow> int \<Rightarrow> store \<Rightarrow> (int \<times> string option list) option" where
  "aug_match pattern matches msize s = match_loop pattern msize s (head s) 0 matches"


subsection \<open>Observing the list\<close>

text \<open>
  The cells met by following \<^verbatim>\<open>next\<close> from \<open>p\<close> until the next cell would be \<open>stop\<close>:
  the traversal that \<^verbatim>\<open>aug_match\<close>, \<^verbatim>\<open>aug_ls\<close> and \<^verbatim>\<open>aug_print\<close> perform from
  \<^verbatim>\<open>head\<close>.
\<close>

partial_function (option) walk :: "store \<Rightarrow> addr \<Rightarrow> addr \<Rightarrow> addr list option" where
  "walk s stop p =
     do {
       e \<leftarrow> deref s p;
       if e_next e = stop then Some [p]
       else do { r \<leftarrow> walk s stop (e_next e); Some (p # r) }
     }"

declare walk.simps [code]

definition traverse :: "store \<Rightarrow> addr list option" where
  "traverse s = walk s (head s) (head s)"

definition entry_at :: "store \<Rightarrow> addr \<Rightarrow> (string \<times> string option) option" where
  "entry_at s a = do { e \<leftarrow> deref s a; q \<leftarrow> e_path e; Some (q, e_value e) }"

text \<open>The path/value pairs of the store in traversal order.\<close>

definition contents :: "store \<Rightarrow> (string \<times> string option) list option" where
  "contents s = do { xs \<leftarrow> traverse s; those (map (entry_at s) xs) }"

definition paths :: "store \<Rightarrow> string list option" where
  "paths s = map_option (map fst) (contents s)"

text \<open>\<^verbatim>\<open>e->next->prev == e\<close> and \<^verbatim>\<open>e->prev->next == e\<close> for the cell at \<open>a\<close>.\<close>

definition links_ok :: "store \<Rightarrow> addr \<Rightarrow> bool" where
  "links_ok s a =
     (case deref s a of
        None \<Rightarrow> False
      | Some e \<Rightarrow>
          (case deref s (e_next e) of None \<Rightarrow> False | Some n \<Rightarrow> e_prev n = a)
          \<and> (case deref s (e_prev e) of None \<Rightarrow> False | Some p \<Rightarrow> e_next p = a))"

text \<open>
  The list is circular and well formed: the traversal from \<^verbatim>\<open>head\<close> returns, meets no
  cell twice, every cell it meets has reciprocal links and a path, and lies below the
  allocator's mark.
\<close>

definition circular :: "store \<Rightarrow> bool" where
  "circular s =
     (case traverse s of
        None \<Rightarrow> False
      | Some xs \<Rightarrow>
          distinct xs
          \<and> list_all (\<lambda>a. links_ok s a \<and> entry_at s a \<noteq> None \<and> a < brk s) xs)"

text \<open>The two sentinels: \<^verbatim>\<open>head\<close> is the entry \<^verbatim>\<open>/system\<close>, and \<^verbatim>\<open>/system/config\<close> is on the list.\<close>

definition sentinels :: "store \<Rightarrow> bool" where
  "sentinels s =
     (map_option fst (entry_at s (head s)) = Some P_SYSTEM
      \<and> (case paths s of None \<Rightarrow> False | Some ps \<Rightarrow> P_SYSTEM_CONFIG \<in> set ps))"

definition store_inv :: "store \<Rightarrow> bool" where
  "store_inv s = (circular s \<and> sentinels s)"

text \<open>
  A valid absolute path: it starts with the separator and carries no trailing separator
  that \<^verbatim>\<open>pathlen\<close> would strip.
\<close>

definition valid_path :: "string \<Rightarrow> bool" where
  "valid_path p = (p \<noteq> [] \<and> hd p = SEP \<and> pathlen p = length p)"

subsection \<open>The interface as a whole\<close>







subsection \<open>Example stores\<close>

text \<open>
  The store after the first \<^verbatim>\<open>aug_init\<close> with no provider registered and no
  allocation failure, and the store after one more \<^verbatim>\<open>aug_set\<close>.
\<close>

definition after_init :: store where
  "after_init =
     (case aug_init [] (empty_store []) of Some (r, t) \<Rightarrow> t | None \<Rightarrow> empty_store [])"

definition after_set :: "string \<Rightarrow> string \<Rightarrow> store \<Rightarrow> store" where
  "after_set p v s = (case aug_set p v s of Some (r, t) \<Rightarrow> t | None \<Rightarrow> s)"

definition store_a_b_c_bc :: store where
  "store_a_b_c_bc =
     after_set ''/a/b/c'' ''4'' (after_set ''/a/c'' ''3''
       (after_set ''/a/b'' ''2'' (after_set ''/a'' ''1'' after_init)))"

definition store_a_b_bc :: store where
  "store_a_b_bc =
     after_set ''/a/b/c'' ''3'' (after_set ''/a/b'' ''2'' (after_set ''/a'' ''1'' after_init))"

text \<open>
  The store with \<^verbatim>\<open>/a\<close>, \<^verbatim>\<open>/a/b\<close> and \<^verbatim>\<open>/a/bc\<close>, the store with
  \<^verbatim>\<open>/a\<close>, \<^verbatim>\<open>/a/y\<close> and \<^verbatim>\<open>/a/z\<close>, and the stores after one more
  \<^verbatim>\<open>aug_rm\<close>, \<^verbatim>\<open>aug_insert\<close> or call of any kind.
\<close>

definition store_a_ab_abc :: store where
  "store_a_ab_abc =
     after_set ''/a/bc'' ''3'' (after_set ''/a/b'' ''2'' (after_set ''/a'' ''1'' after_init))"

definition store_a_y_z :: store where
  "store_a_y_z =
     after_set ''/a/z'' ''3'' (after_set ''/a/y'' ''2'' (after_set ''/a'' ''1'' after_init))"

definition after_rm :: "string \<Rightarrow> store \<Rightarrow> store" where
  "after_rm p s = (case aug_rm p s of Some (n, t) \<Rightarrow> t | None \<Rightarrow> s)"

definition after_insert :: "string \<Rightarrow> string \<Rightarrow> store \<Rightarrow> store" where
  "after_insert p sib s = (case aug_insert p sib s of Some (r, t) \<Rightarrow> t | None \<Rightarrow> s)"



section \<open>The list as a sequence of cells\<close>

lemma pathprefix_sym_eq: "(pathprefix a b \<and> pathprefix b a) = (a = b)"
proof -
  have "False" if h1: "take (Suc (length a)) b = a @ [SEP]" and h2: "take (Suc (length b)) a = b @ [SEP]"
  proof -
    from h1 have "length (take (Suc (length a)) b) = Suc (length a)" by simp
    then have l1: "Suc (length a) \<le> length b" by simp
    from h2 have "length (take (Suc (length b)) a) = Suc (length b)" by simp
    then have "Suc (length b) \<le> length a" by simp
    with l1 show False by simp
  qed
  moreover have "False" if "take (Suc (length a)) a = a @ [SEP]" for a :: string
  proof -
    from that have "length (take (Suc (length a)) a) = Suc (length a)" by simp
    then show False by simp
  qed
  ultimately show ?thesis unfolding pathprefix_def by auto
qed

subsection \<open>Links\<close>

definition nx :: "store \<Rightarrow> addr \<Rightarrow> addr option" where
  "nx s a = map_option e_next (deref s a)"

definition pv :: "store \<Rightarrow> addr \<Rightarrow> addr option" where
  "pv s a = map_option e_prev (deref s a)"

definition lnk :: "store \<Rightarrow> addr \<Rightarrow> addr \<Rightarrow> bool" where
  "lnk s a b = (nx s a = Some b \<and> pv s b = Some a)"

definition cyc :: "store \<Rightarrow> addr list \<Rightarrow> bool" where
  "cyc s xs = (xs \<noteq> [] \<and> distinct xs \<and> successively (lnk s) (xs @ [hd xs]))"

definition ring :: "store \<Rightarrow> addr list \<Rightarrow> bool" where
  "ring s xs = (cyc s xs \<and> hd xs = head s \<and> (\<forall>a\<in>set xs. a < brk s \<and> entry_at s a \<noteq> None))"

lemma succ_frame:
  "successively (lnk s) xs \<Longrightarrow>
   (\<forall>a\<in>set (butlast xs). nx t a = nx s a) \<Longrightarrow>
   (\<forall>a\<in>set (tl xs). pv t a = pv s a) \<Longrightarrow>
   successively (lnk t) xs"
proof (induction "lnk s" xs rule: successively.induct)
  case 1
  then show ?case by simp
next
  case (2 x)
  then show ?case by simp
next
  case (3 x y xs)
  then show ?case by (simp add: lnk_def)
qed

lemma cyc_rotate: "cyc s (us @ vs) \<Longrightarrow> vs \<noteq> [] \<Longrightarrow> cyc s (vs @ us)"
proof (cases us)
  case Nil
  assume "cyc s (us @ vs)" then show ?thesis using Nil by simp
next
  case (Cons u us')
  assume c: "cyc s (us @ vs)" and v: "vs \<noteq> []"
  from c have d: "distinct (us @ vs)" and sc: "successively (lnk s) ((us @ vs) @ [hd (us @ vs)])"
    by (simp_all add: cyc_def)
  from Cons have un: "us \<noteq> []" and hu: "hd us = u" by simp_all
  from sc un hu have "successively (lnk s) (us @ (vs @ [u]))" by simp
  then have s1: "successively (lnk s) us" and s2: "successively (lnk s) (vs @ [u])"
    and l1: "lnk s (last us) (hd vs)"
    unfolding successively_append_iff[of _ us] using un v by auto
  from s2 have s3: "successively (lnk s) vs" and l2: "lnk s (last vs) (hd us)"
    unfolding successively_append_iff[of _ vs] using v hu by auto
  have "successively (lnk s) (vs @ (us @ [hd vs]))"
    unfolding successively_append_iff[of _ vs] successively_append_iff[of _ us]
    using s1 s3 l1 l2 un v by auto
  then have "successively (lnk s) ((vs @ us) @ [hd (vs @ us)])"
    using v by simp
  moreover from d have "distinct (vs @ us)" by auto
  ultimately show ?thesis using v by (simp add: cyc_def)
qed

lemma cyc_split: "cyc s xs \<Longrightarrow> a \<in> set xs \<Longrightarrow> \<exists>us vs. xs = us @ a # vs \<and> cyc s (a # vs @ us)"
proof -
  assume c: "cyc s xs" and a: "a \<in> set xs"
  from a obtain us vs where x: "xs = us @ a # vs"
    unfolding in_set_conv_decomp by blast
  with c have "cyc s ((a # vs) @ us)" using cyc_rotate[of s us "a # vs"] by simp
  then have "cyc s (a # vs @ us)" by simp
  with x show ?thesis by blast
qed

lemma walk_chain:
  "successively (lnk s) (p # post @ [stop]) \<Longrightarrow> stop \<notin> set post \<Longrightarrow> walk s stop p = Some (p # post)"
proof (induction post arbitrary: p)
  case Nil
  then show ?case by (subst walk.simps) (auto simp: lnk_def nx_def)
next
  case (Cons x post)
  from Cons.prems have l: "lnk s p x" and r: "successively (lnk s) (x # post @ [stop])" and ne: "x \<noteq> stop" "stop \<notin> set post"
    by auto
  from Cons.IH[OF r ne(2)] have "walk s stop x = Some (x # post)" .
  with l ne show ?case by (subst walk.simps) (auto simp: lnk_def nx_def)
qed

lemma cyc_walk: "cyc s (a # rest) \<Longrightarrow> walk s a a = Some (a # rest)"
  by (rule walk_chain) (auto simp: cyc_def)

lemma ring_traverse: "ring s xs \<Longrightarrow> traverse s = Some xs"
proof -
  assume r: "ring s xs"
  then obtain rest where x: "xs = head s # rest" by (cases xs) (auto simp: ring_def cyc_def)
  with r have "cyc s (head s # rest)" by (simp add: ring_def)
  from cyc_walk[OF this] x show ?thesis by (simp add: traverse_def)
qed

lemma walk_Some_chain:
  "walk s stop p = Some xs \<Longrightarrow>
   \<exists>post. xs = p # post \<and> successively (\<lambda>a b. nx s a = Some b) (p # post @ [stop])"
proof (induction xs arbitrary: p)
  case Nil
  then show ?case by (subst (asm) walk.simps) (auto split: bind_splits if_splits)
next
  case (Cons x xs)
  from Cons.prems obtain e where e: "deref s p = Some e" 
    by (subst (asm) walk.simps) (auto split: bind_splits)
  show ?case
  proof (cases "e_next e = stop")
    case True
    with Cons.prems e show ?thesis by (subst (asm) walk.simps) (auto simp: nx_def)
  next
    case False
    with Cons.prems e have "x = p" "walk s stop (e_next e) = Some xs"
      by (subst (asm) walk.simps, auto split: bind_splits)+
    with Cons.IH[of "e_next e"] e show ?thesis by (auto simp: nx_def)
  qed
qed

lemma cyc_lnk_next: "cyc s xs \<Longrightarrow> a \<in> set xs \<Longrightarrow> \<exists>b\<in>set xs. lnk s a b"
proof -
  assume "cyc s xs" "a \<in> set xs"
  then obtain us vs where x: "xs = us @ a # vs" and c: "cyc s (a # vs @ us)" using cyc_split by blast
  show ?thesis
  proof (cases "vs @ us")
    case Nil
    with c x show ?thesis by (auto simp: cyc_def)
  next
    case (Cons y ys)
    with c have "lnk s a y" by (simp add: cyc_def)
    moreover from Cons have "y \<in> set (vs @ us)" by simp
    then have "y \<in> set xs" using x by auto
    ultimately show ?thesis by blast
  qed
qed

lemma cyc_lnk_prev: "cyc s xs \<Longrightarrow> a \<in> set xs \<Longrightarrow> \<exists>b\<in>set xs. lnk s b a"
proof -
  assume "cyc s xs" "a \<in> set xs"
  then obtain us vs where x: "xs = us @ a # vs" and c: "cyc s (a # vs @ us)" using cyc_split by blast
  show ?thesis
  proof (cases "vs @ us" rule: rev_cases)
    case Nil
    with c x show ?thesis by (auto simp: cyc_def)
  next
    case (snoc ys y)
    with c have "successively (lnk s) ((a # ys) @ [y, a])" by (simp add: cyc_def)
    then have "lnk s y a" unfolding successively_append_iff by simp
    moreover from snoc have "y \<in> set (vs @ us)" by simp
    then have "y \<in> set xs" using x by auto
    ultimately show ?thesis by blast
  qed
qed

lemma cyc_links_ok: "cyc s xs \<Longrightarrow> a \<in> set xs \<Longrightarrow> links_ok s a"
proof -
  assume c: "cyc s xs" and a: "a \<in> set xs"
  from cyc_lnk_next[OF c a] obtain b where "lnk s a b" by blast
  moreover from cyc_lnk_prev[OF c a] obtain b' where "lnk s b' a" by blast
  ultimately show ?thesis by (auto simp: lnk_def nx_def pv_def links_ok_def split: option.splits)
qed

lemma ring_circular: "ring s xs \<Longrightarrow> circular s"
  using ring_traverse[of s xs] cyc_links_ok[of s xs]
  by (auto simp: circular_def ring_def list_all_iff cyc_def)

lemma succ_links:
  "successively (\<lambda>a b. nx s a = Some b) xs \<Longrightarrow>
   \<forall>a\<in>set (butlast xs). links_ok s a \<Longrightarrow> successively (lnk s) xs"
proof (induction "\<lambda>a b. nx s a = Some b" xs rule: successively.induct)
  case 1
  then show ?case by simp
next
  case (2 x)
  then show ?case by simp
next
  case (3 x y xs)
  then show ?case by (auto simp: lnk_def nx_def pv_def links_ok_def split: option.splits)
qed

lemma circular_ring: "circular s \<Longrightarrow> \<exists>xs. ring s xs"
proof -
  assume c: "circular s"
  then obtain xs where t: "traverse s = Some xs" and d: "distinct xs"
    and l: "\<forall>a\<in>set xs. links_ok s a \<and> entry_at s a \<noteq> None \<and> a < brk s"
    by (auto simp: circular_def list_all_iff split: option.splits)
  from t obtain post where x: "xs = head s # post"
    and sc: "successively (\<lambda>a b. nx s a = Some b) (head s # post @ [head s])"
    unfolding traverse_def using walk_Some_chain by blast
  from l x have "\<forall>a\<in>set (butlast (head s # post @ [head s])). links_ok s a"
    by (simp add: butlast_append)
  from succ_links[OF sc this] have "successively (lnk s) (xs @ [hd xs])" using x by simp
  with d l x have "ring s xs" by (simp add: ring_def cyc_def)
  then show ?thesis ..
qed

lemma circular_iff: "circular s = (\<exists>xs. ring s xs)"
  using circular_ring ring_circular by blast

lemma butlast_not_last: "distinct xs \<Longrightarrow> x \<in> set (butlast xs) \<Longrightarrow> x \<noteq> last xs"
proof (cases "xs = []")
  case True
  assume "x \<in> set (butlast xs)" with True show ?thesis by simp
next
  case False
  assume d: "distinct xs" and x: "x \<in> set (butlast xs)"
  from False have "xs = butlast xs @ [last xs]" by simp
  with d have "distinct (butlast xs @ [last xs])" by simp
  then have "last xs \<notin> set (butlast xs)" by simp
  with x show ?thesis by auto
qed

lemma tl_not_hd: "distinct xs \<Longrightarrow> x \<in> set (tl xs) \<Longrightarrow> x \<noteq> hd xs"
  by (cases xs) auto

lemma cyc_splice:
  assumes c: "cyc s (a # rest)" and e: "e \<notin> set (a # rest)"
    and l: "l = last (a # rest)"
    and t1: "nx t e = Some a" "pv t e = Some l" "pv t a = Some e" "nx t l = Some e"
    and fn: "\<forall>x\<in>set (a # rest). x \<noteq> l \<longrightarrow> nx t x = nx s x"
    and fp: "\<forall>x\<in>set rest. pv t x = pv s x"
  shows "cyc t (a # rest @ [e])"
proof -
  from c have d: "distinct (a # rest)" and sc: "successively (lnk s) ((a # rest) @ [a])"
    by (simp_all add: cyc_def)
  from sc have s1: "successively (lnk s) (a # rest)"
    unfolding successively_append_iff by simp
  have "\<forall>x\<in>set (butlast (a # rest)). nx t x = nx s x"
    using fn butlast_not_last[OF d] l by (metis in_set_butlastD)
  moreover have "\<forall>x\<in>set (tl (a # rest)). pv t x = pv s x" using fp by simp
  ultimately have s2: "successively (lnk t) (a # rest)" using succ_frame[OF s1] by blast
  have "successively (lnk t) ((a # rest) @ [e, a])"
    unfolding successively_append_iff using s2 t1 l by (simp add: lnk_def)
  moreover have "distinct (a # rest @ [e])" using d e by auto
  ultimately show ?thesis by (simp add: cyc_def)
qed

lemma cyc_unsplice:
  assumes c: "cyc s (p # rest)" and ne: "rest \<noteq> []"
    and t1: "nx t (last rest) = Some (hd rest)" "pv t (hd rest) = Some (last rest)"
    and fn: "\<forall>x\<in>set rest. x \<noteq> last rest \<longrightarrow> nx t x = nx s x"
    and fp: "\<forall>x\<in>set rest. x \<noteq> hd rest \<longrightarrow> pv t x = pv s x"
  shows "cyc t rest"
proof -
  from c have d: "distinct rest" and sc: "successively (lnk s) ([p] @ (rest @ [p]))"
    by (simp_all add: cyc_def)
  from sc have "successively (lnk s) (rest @ [p])"
    unfolding successively_append_iff[of _ "[p]"] by simp
  then have s1: "successively (lnk s) rest"
    unfolding successively_append_iff by simp
  have "\<forall>x\<in>set (butlast rest). nx t x = nx s x"
    using fn butlast_not_last[OF d] by (metis in_set_butlastD)
  moreover have "\<forall>x\<in>set (tl rest). pv t x = pv s x"
    using fp tl_not_hd[OF d] ne by (metis list.set_sel(2))
  ultimately have s2: "successively (lnk t) rest" using succ_frame[OF s1] by blast
  have "successively (lnk t) (rest @ [hd rest])"
    unfolding successively_append_iff using s2 t1 ne by (simp add: lnk_def)
  with d ne show ?thesis by (simp add: cyc_def)
qed

lemma cyc_frame:
  "cyc s xs \<Longrightarrow> \<forall>x\<in>set xs. nx t x = nx s x \<and> pv t x = pv s x \<Longrightarrow> cyc t xs"
proof -
  assume c: "cyc s xs" and f: "\<forall>x\<in>set xs. nx t x = nx s x \<and> pv t x = pv s x"
  from c have ne: "xs \<noteq> []" by (simp add: cyc_def)
  then have h: "hd xs \<in> set xs" by simp
  have "successively (lnk t) (xs @ [hd xs])"
  proof (rule succ_frame)
    show "successively (lnk s) (xs @ [hd xs])" using c by (simp add: cyc_def)
    show "\<forall>a\<in>set (butlast (xs @ [hd xs])). nx t a = nx s a" using f by simp
    show "\<forall>a\<in>set (tl (xs @ [hd xs])). pv t a = pv s a"
      using f h ne by (auto simp: tl_append split: list.splits dest: list.set_sel(2))
  qed
  with c show ?thesis by (simp add: cyc_def)
qed

subsection \<open>Reading updated stores\<close>

lemma next_alloc_eq:
  "next_alloc s = (alloc_ok s = [] \<or> hd (alloc_ok s), s\<lparr>alloc_ok := tl (alloc_ok s)\<rparr>)"
  by (cases "alloc_ok s") (simp_all add: next_alloc_def)

lemma upd_Some: "deref s a = Some e \<Longrightarrow> upd a f s = Some (s\<lparr>heap := (heap s)(a \<mapsto> f e)\<rparr>)"
  by (simp add: upd_def)

lemma deref_simps [simp]:
  "deref (s\<lparr>heap := h\<rparr>) x = (if x = NULL then None else h x)"
  "deref (s\<lparr>alloc_ok := oks\<rparr>) x = deref s x"
  "deref (s\<lparr>brk := b\<rparr>) x = deref s x"
  by (simp_all add: deref_def)

lemma ring_brk: "ring s xs \<Longrightarrow> brk s \<noteq> NULL \<and> brk s \<notin> set xs \<and> NULL \<notin> set xs"
proof -
  assume r: "ring s xs"
  then have "xs \<noteq> []" by (simp add: ring_def cyc_def)
  then obtain a where "a \<in> set xs" by (cases xs) auto
  with r have "a < brk s" by (simp add: ring_def)
  moreover from r have "brk s \<notin> set xs" by (auto simp: ring_def)
  moreover from r have "NULL \<notin> set xs" by (auto simp: ring_def entry_at_def deref_def)
  ultimately show ?thesis by auto
qed

lemma entry_at_Some:
  "(entry_at s a = Some (q, v)) = (\<exists>e. deref s a = Some e \<and> e_path e = Some q \<and> e_value e = v)"
  by (cases "deref s a"; cases "e_path (the (deref s a))") (auto simp: entry_at_def)

lemma ring_deref:
  assumes "ring s xs" and "a \<in> set xs"
  shows "\<exists>e q. deref s a = Some e \<and> e_path e = Some q"
proof -
  from assms obtain q v where "entry_at s a = Some (q, v)" by (fastforce simp: ring_def)
  then show ?thesis unfolding entry_at_Some by blast
qed

lemma ring_frame:
  assumes r: "ring s xs" and h: "head t = head s" and b: "brk s \<le> brk t"
    and f: "\<forall>x\<in>set xs. deref t x = deref s x"
  shows "ring t xs"
proof -
  from f have "\<forall>x\<in>set xs. nx t x = nx s x \<and> pv t x = pv s x"
    by (simp add: nx_def pv_def)
  moreover from r have "cyc s xs" by (simp add: ring_def)
  ultimately have "cyc t xs" by (rule cyc_frame[rotated])
  moreover from f have "\<forall>x\<in>set xs. entry_at t x = entry_at s x" by (simp add: entry_at_def)
  ultimately show ?thesis using r h b by (fastforce simp: ring_def)
qed

lemma insert_cells:
  assumes b: "brk s \<noteq> NULL" and n0: "nxt \<noteq> NULL" and l0: "l \<noteq> NULL"
    and nb: "nxt \<noteq> brk s" and lb: "l \<noteq> brk s"
    and dn: "deref s nxt = Some cn" and pl: "e_prev cn = l" and dl: "deref s l = Some cl"
    and ok: "alloc_ok s = [] \<or> (hd (alloc_ok s) \<and> (tl (alloc_ok s) = [] \<or> hd (tl (alloc_ok s))))"
  shows "\<exists>t. aug_entry_insert path nxt s = Some (brk s, t) \<and> head t = head s \<and> brk t = Suc (brk s)
           \<and> deref t (brk s) = Some \<lparr>e_path = Some path, e_value = None, e_next = nxt, e_prev = l\<rparr>
           \<and> (\<forall>x. x \<noteq> brk s \<longrightarrow> deref t x =
                (if x = l then Some ((if l = nxt then cn\<lparr>e_prev := brk s\<rparr> else cl)\<lparr>e_next := brk s\<rparr>)
                 else if x = nxt then Some (cn\<lparr>e_prev := brk s\<rparr>)
                 else deref s x))"
  using assms
  by (cases "alloc_ok s"; cases "tl (alloc_ok s)")
     (auto simp: aug_entry_insert_def calloc_entry_def strdup_def next_alloc_def upd_def
        zero_entry_def deref_def Let_def)


lemma insert_fail:
  assumes b: "brk s \<noteq> NULL"
    and ok: "\<not> (alloc_ok s = [] \<or> (hd (alloc_ok s) \<and> (tl (alloc_ok s) = [] \<or> hd (tl (alloc_ok s)))))"
  shows "\<exists>t. aug_entry_insert path nxt s = Some (NULL, t) \<and> head t = head s \<and> brk s \<le> brk t
           \<and> (\<forall>x. x \<noteq> brk s \<longrightarrow> deref t x = deref s x)"
  using assms
  by (cases "alloc_ok s"; cases "tl (alloc_ok s)")
     (auto simp: aug_entry_insert_def calloc_entry_def strdup_def next_alloc_def upd_def
        zero_entry_def deref_def Let_def free_entry_def)

lemma entry_at_deref: "deref t x = deref s x \<Longrightarrow> entry_at t x = entry_at s x"
  by (simp add: entry_at_def)

lemma insert_links:
  assumes b: "brk s \<noteq> NULL" and n0: "nxt \<noteq> NULL" and l0: "l \<noteq> NULL"
    and nb: "nxt \<noteq> brk s" and lb: "l \<noteq> brk s"
    and dn: "deref s nxt = Some cn" and pl: "e_prev cn = l" and dl: "deref s l = Some cl"
    and ok: "alloc_ok s = [] \<or> (hd (alloc_ok s) \<and> (tl (alloc_ok s) = [] \<or> hd (tl (alloc_ok s))))"
  shows "\<exists>t. aug_entry_insert path nxt s = Some (brk s, t) \<and> head t = head s \<and> brk t = Suc (brk s)
           \<and> entry_at t (brk s) = Some (path, None)
           \<and> nx t (brk s) = Some nxt \<and> pv t (brk s) = Some l
           \<and> pv t nxt = Some (brk s) \<and> nx t l = Some (brk s)
           \<and> (\<forall>x. x \<noteq> brk s \<longrightarrow> entry_at t x = entry_at s x)
           \<and> (\<forall>x. x \<noteq> brk s \<longrightarrow> x \<noteq> l \<longrightarrow> nx t x = nx s x)
           \<and> (\<forall>x. x \<noteq> brk s \<longrightarrow> x \<noteq> nxt \<longrightarrow> pv t x = pv s x)"
proof -
  from insert_cells[OF assms, of path] obtain t where
    t: "aug_entry_insert path nxt s = Some (brk s, t)" "head t = head s" "brk t = Suc (brk s)"
    and tb: "deref t (brk s) = Some \<lparr>e_path = Some path, e_value = None, e_next = nxt, e_prev = l\<rparr>"
    and tx: "\<And>x. x \<noteq> brk s \<Longrightarrow> deref t x =
                (if x = l then Some ((if l = nxt then cn\<lparr>e_prev := brk s\<rparr> else cl)\<lparr>e_next := brk s\<rparr>)
                 else if x = nxt then Some (cn\<lparr>e_prev := brk s\<rparr>)
                 else deref s x)" by blast
  have e1: "entry_at t (brk s) = Some (path, None)" using tb by (simp add: entry_at_def)
  have e2: "nx t (brk s) = Some nxt" "pv t (brk s) = Some l" using tb by (simp_all add: nx_def pv_def)
  have e3: "pv t nxt = Some (brk s)" using tx[OF nb] by (simp add: pv_def)
  have e4: "nx t l = Some (brk s)" using tx[OF lb] by (simp add: nx_def)
  have e5: "entry_at t x = entry_at s x" if "x \<noteq> brk s" for x
  proof (cases "x = l")
    case True
    then show ?thesis using tx[OF lb] dl dn by (auto simp: entry_at_def)
  next
    case False
    show ?thesis
    proof (cases "x = nxt")
      case True
      then show ?thesis using tx[OF nb] False dn by (simp add: entry_at_def)
    next
      case False
      with \<open>x \<noteq> l\<close> tx[OF that] show ?thesis by (simp add: entry_at_def)
    qed
  qed
  have e6: "nx t x = nx s x" if "x \<noteq> brk s" "x \<noteq> l" for x
  proof (cases "x = nxt")
    case True
    then show ?thesis using tx[OF nb] that dn by (simp add: nx_def)
  next
    case False
    with that tx[OF that(1)] show ?thesis by (simp add: nx_def)
  qed
  have e7: "pv t x = pv s x" if "x \<noteq> brk s" "x \<noteq> nxt" for x
  proof (cases "x = l")
    case True
    then show ?thesis using tx[OF lb] that dl by (auto simp: pv_def)
  next
    case False
    with that tx[OF that(1)] show ?thesis by (simp add: pv_def)
  qed
  show ?thesis
  proof (intro exI[of _ t] conjI allI impI)
    show "aug_entry_insert path nxt s = Some (brk s, t)" by (rule t(1))
    show "head t = head s" by (rule t(2))
    show "brk t = Suc (brk s)" by (rule t(3))
    show "entry_at t (brk s) = Some (path, None)" by (rule e1)
    show "nx t (brk s) = Some nxt" by (rule e2(1))
    show "pv t (brk s) = Some l" by (rule e2(2))
    show "pv t nxt = Some (brk s)" by (rule e3)
    show "nx t l = Some (brk s)" by (rule e4)
    show "entry_at t x = entry_at s x" if "x \<noteq> brk s" for x by (rule e5[OF that])
    show "nx t x = nx s x" if "x \<noteq> brk s" "x \<noteq> l" for x by (rule e6[OF that])
    show "pv t x = pv s x" if "x \<noteq> brk s" "x \<noteq> nxt" for x by (rule e7[OF that])
  qed
qed

lemma aug_entry_insert_ring:
  assumes r: "ring s xs" and n: "xs = us @ nxt # vs"
  shows "\<exists>e t. aug_entry_insert path nxt s = Some (e, t) \<and> head t = head s \<and> brk s \<le> brk t \<and>
         (\<forall>a\<in>set xs. entry_at t a = entry_at s a) \<and>
         (e = NULL \<longrightarrow> ring t xs) \<and>
         (e \<noteq> NULL \<longrightarrow> e = brk s \<and> entry_at t e = Some (path, None)
               \<and> (us = [] \<longrightarrow> ring t (xs @ [e]))
               \<and> (us \<noteq> [] \<longrightarrow> ring t (us @ e # nxt # vs)))"
proof -
  let ?ok = "alloc_ok s = [] \<or> (hd (alloc_ok s) \<and> (tl (alloc_ok s) = [] \<or> hd (tl (alloc_ok s))))"
  let ?b = "brk s"
  from ring_brk[OF r] have b0: "?b \<noteq> NULL" and bx: "?b \<notin> set xs" and zx: "NULL \<notin> set xs"
    by simp_all
  have nb: "x \<noteq> ?b" if "x \<in> set xs" for x using that bx by blast
  have nz: "x \<noteq> NULL" if "x \<in> set xs" for x
  proof
    assume "x = NULL" with that zx show False by simp
  qed
  show ?thesis
  proof (cases ?ok)
    case False
    from insert_fail[OF b0 False, of path nxt] obtain t where
      t: "aug_entry_insert path nxt s = Some (NULL, t)" "head t = head s" "brk s \<le> brk t"
      and f: "\<And>x. x \<noteq> brk s \<Longrightarrow> deref t x = deref s x" by blast
    have fx: "\<forall>x\<in>set xs. deref t x = deref s x"
    proof
      fix x assume "x \<in> set xs"
      from f[OF nb[OF this]] show "deref t x = deref s x" .
    qed
    have "\<forall>a\<in>set xs. entry_at t a = entry_at s a"
    proof
      fix a assume "a \<in> set xs"
      with fx have "deref t a = deref s a" by (rule bspec)
      then show "entry_at t a = entry_at s a" by (rule entry_at_deref)
    qed
    moreover have "ring t xs" using ring_frame[OF r t(2) t(3) fx] .
    ultimately show ?thesis using t by (intro exI[of _ NULL] exI[of _ t]) simp
  next
    case True
    let ?rot = "nxt # vs @ us"
    let ?l = "last ?rot"
    from r have c0: "cyc s xs" by (simp add: ring_def)
    from c0 n have c: "cyc s ?rot" using cyc_rotate[of s us "nxt # vs"] by simp
    have setrot: "set ?rot = set xs" using n by auto
    have "?l \<in> set ?rot" by (rule last_in_set) simp
    then have lin: "?l \<in> set xs" by (simp only: setrot)
    have nin: "nxt \<in> set xs" using n by simp
    from c have "successively (lnk s) (?rot @ [nxt])" by (simp add: cyc_def)
    then have ll: "lnk s ?l nxt" unfolding successively_append_iff by simp
    from ring_deref[OF r nin] obtain cn where dn: "deref s nxt = Some cn" by blast
    from ring_deref[OF r lin] obtain cl where dl: "deref s ?l = Some cl" by blast
    from ll dn have pl: "e_prev cn = ?l" by (simp add: lnk_def pv_def)
    from insert_links[OF b0 nz[OF nin] nz[OF lin] nb[OF nin] nb[OF lin] dn pl dl True, of path]
    obtain t where
      t: "aug_entry_insert path nxt s = Some (?b, t)" "head t = head s" "brk t = Suc ?b"
      and eb: "entry_at t ?b = Some (path, None)"
      and l1: "nx t ?b = Some nxt" "pv t ?b = Some ?l" "pv t nxt = Some ?b" "nx t ?l = Some ?b"
      and fe: "\<And>x. x \<noteq> ?b \<Longrightarrow> entry_at t x = entry_at s x"
      and fn: "\<And>x. x \<noteq> ?b \<Longrightarrow> x \<noteq> ?l \<Longrightarrow> nx t x = nx s x"
      and fp: "\<And>x. x \<noteq> ?b \<Longrightarrow> x \<noteq> nxt \<Longrightarrow> pv t x = pv s x" by blast
    have ea: "\<forall>a\<in>set xs. entry_at t a = entry_at s a"
    proof
      fix x assume "x \<in> set xs"
      from fe[OF nb[OF this]] show "entry_at t x = entry_at s x" .
    qed
    have c2: "cyc t (nxt # (vs @ us) @ [?b])"
    proof (rule cyc_splice[OF c _ refl l1])
      show "?b \<notin> set (nxt # vs @ us)" using bx setrot by simp
      show "\<forall>x\<in>set (nxt # vs @ us). x \<noteq> ?l \<longrightarrow> nx t x = nx s x"
      proof (intro ballI impI)
        fix x assume "x \<in> set (nxt # vs @ us)" and xl: "x \<noteq> ?l"
        then have "x \<in> set xs" by (simp only: setrot)
        from fn[OF nb[OF this] xl] show "nx t x = nx s x" .
      qed
      show "\<forall>x\<in>set (vs @ us). pv t x = pv s x"
      proof
        fix x assume x: "x \<in> set (vs @ us)"
        then have "x \<in> set xs" using n by auto
        then have xb: "x \<noteq> ?b" by (rule nb)
        from c have "distinct (nxt # vs @ us)" by (simp add: cyc_def)
        with x have xn: "x \<noteq> nxt" by auto
        from fp[OF xb xn] show "pv t x = pv s x" .
      qed
    qed
    let ?new = "if us = [] then xs @ [?b] else us @ ?b # nxt # vs"
    have c3: "cyc t ?new"
    proof (cases "us = []")
      case True
      with c2 n show ?thesis by simp
    next
      case False
      from c2 have "cyc t ((nxt # vs) @ (us @ [?b]))" by simp
      then have "cyc t ((us @ [?b]) @ nxt # vs)" by (rule cyc_rotate) simp
      with False show ?thesis by simp
    qed
    have hd3: "hd ?new = hd xs" using n by (cases us) simp_all
    have set3: "set ?new = insert ?b (set xs)" using n by (cases us) auto
    have "ring t ?new"
      unfolding ring_def
    proof (intro conjI ballI)
      show "cyc t ?new" by (rule c3)
      show "hd ?new = head t" using hd3 r t by (simp add: ring_def)
    next
      fix a assume "a \<in> set ?new"
      then have "a \<in> set xs \<or> a = ?b" unfolding set3 by blast
      then show "a < brk t" using r t by (auto simp: ring_def)
    next
      fix a assume "a \<in> set ?new"
      then have "a \<in> set xs \<or> a = ?b" unfolding set3 by blast
      then show "entry_at t a \<noteq> None" using r ea eb by (auto simp: ring_def)
    qed
    then have "us = [] \<longrightarrow> ring t (xs @ [?b])" and "us \<noteq> [] \<longrightarrow> ring t (us @ ?b # nxt # vs)"
      by (auto split: if_splits)
    with t ea eb b0 show ?thesis by (intro exI[of _ ?b] exI[of _ t]) simp
  qed
qed

lemma aug_entry_insert_tail:
  assumes r: "ring s xs"
  shows "\<exists>e t. aug_entry_insert path (head s) s = Some (e, t) \<and> head t = head s \<and>
         (\<forall>a\<in>set xs. entry_at t a = entry_at s a) \<and>
         (e = NULL \<longrightarrow> ring t xs) \<and>
         (e \<noteq> NULL \<longrightarrow> e = brk s \<and> entry_at t e = Some (path, None) \<and> ring t (xs @ [e]))"
proof -
  from r obtain rest where x: "xs = [] @ head s # rest"
    by (cases xs) (auto simp: ring_def cyc_def)
  from aug_entry_insert_ring[OF r x, of path] show ?thesis by auto
qed

definition pth :: "store \<Rightarrow> addr \<Rightarrow> string" where
  "pth s a = (case entry_at s a of Some (q, v) \<Rightarrow> q | None \<Rightarrow> [])"

definition vlu :: "store \<Rightarrow> addr \<Rightarrow> string option" where
  "vlu s a = (case entry_at s a of Some (q, v) \<Rightarrow> v | None \<Rightarrow> None)"

lemma entry_at_pth: "entry_at s a \<noteq> None \<Longrightarrow> entry_at s a = Some (pth s a, vlu s a)"
  by (cases "entry_at s a") (auto simp: pth_def vlu_def)

lemma cell_of_entry:
  assumes "entry_at s a \<noteq> None"
  shows "\<exists>e. deref s a = Some e \<and> e_path e = Some (pth s a) \<and> e_value e = vlu s a"
proof -
  from assms have "entry_at s a = Some (pth s a, vlu s a)" by (rule entry_at_pth)
  then show ?thesis unfolding entry_at_Some .
qed

lemma ring_chain:
  assumes r: "ring s (pre @ p # post)"
  shows "successively (lnk s) (p # post @ [head s])" and "head s \<notin> set post"
proof -
  from r have c: "cyc s (pre @ p # post)" and h: "hd (pre @ p # post) = head s"
    unfolding ring_def by blast+
  from c have d: "distinct (pre @ p # post)"
    and sc: "successively (lnk s) ((pre @ p # post) @ [hd (pre @ p # post)])"
    unfolding cyc_def by blast+
  from sc[unfolded h] have "successively (lnk s) (pre @ (p # post @ [head s]))" by simp
  then show "successively (lnk s) (p # post @ [head s])"
    unfolding successively_append_iff[of _ pre] by simp
  show "head s \<notin> set post"
  proof (cases pre)
    case Nil
    with h d show ?thesis by simp
  next
    case (Cons x pre')
    with h have "head s \<in> set pre" by simp
    with d show ?thesis by auto
  qed
qed

lemma ring_entries: "ring s xs \<Longrightarrow> a \<in> set xs \<Longrightarrow> entry_at s a \<noteq> None"
  by (simp add: ring_def)

lemma ring_contents: 
  assumes "ring s xs"
  shows "contents s = Some (map (\<lambda>a. (pth s a, vlu s a)) xs)"
proof -
  have "those (map (entry_at s) ys) = Some (map (\<lambda>a. (pth s a, vlu s a)) ys)"
    if "\<forall>a\<in>set ys. entry_at s a \<noteq> None" for ys
    using that
  proof (induction ys)
    case Nil
    then show ?case by simp
  next
    case (Cons y ys)
    then have "entry_at s y \<noteq> None" by simp
    then have "entry_at s y = Some (pth s y, vlu s y)" by (rule entry_at_pth)
    with Cons show ?case by simp
  qed
  moreover from assms have "\<forall>a\<in>set xs. entry_at s a \<noteq> None" by (simp add: ring_def)
  ultimately show ?thesis using ring_traverse[OF assms] by (simp add: contents_def)
qed

lemma ring_paths: "ring s xs \<Longrightarrow> paths s = Some (map (pth s) xs)"
  by (simp add: paths_def ring_contents comp_def)

subsection \<open>The lookup\<close>

lemma find_chain:
  assumes "successively (lnk s) (p # post @ [head s])" and "head s \<notin> set post"
    and "\<forall>a\<in>set (p # post). entry_at s a \<noteq> None"
  shows "find_loop path s p
         = Some (case List.find (\<lambda>a. pth s a = path) (p # post) of Some a \<Rightarrow> a | None \<Rightarrow> NULL)"
  using assms
proof (induction post arbitrary: p)
  case Nil
  then have "entry_at s p \<noteq> None" by simp
  from cell_of_entry[OF this] obtain e where e: "deref s p = Some e" "e_path e = Some (pth s p)"
    by blast
  from Nil.prems(1) e have "e_next e = head s" by (simp add: lnk_def nx_def)
  with e show ?case
    by (subst find_loop.simps) (simp add: pathprefix_sym_eq eq_commute[of path])
next
  case (Cons x post)
  then have "entry_at s p \<noteq> None" by simp
  from cell_of_entry[OF this] obtain e where e: "deref s p = Some e" "e_path e = Some (pth s p)"
    by blast
  from Cons.prems(1) e have n: "e_next e = x" by (simp add: lnk_def nx_def)
  from Cons.prems have xh: "x \<noteq> head s" by simp
  have ih: "find_loop path s x
         = Some (case List.find (\<lambda>a. pth s a = path) (x # post) of Some a \<Rightarrow> a | None \<Rightarrow> NULL)"
    using Cons.prems by (intro Cons.IH) simp_all
  show ?case
    by (subst find_loop.simps) (simp add: e n xh ih pathprefix_sym_eq eq_commute[of path])
qed

lemma aug_entry_find_ring:
  assumes r: "ring s xs"
  shows "aug_entry_find path s
         = Some (case List.find (\<lambda>a. pth s a = path) xs of Some a \<Rightarrow> a | None \<Rightarrow> NULL)"
proof -
  from r obtain rest where x: "xs = head s # rest" by (cases xs) (auto simp: ring_def cyc_def)
  with r have r2: "ring s ([] @ head s # rest)" by simp
  have "find_loop path s (head s)
         = Some (case List.find (\<lambda>a. pth s a = path) (head s # rest) of Some a \<Rightarrow> a | None \<Rightarrow> NULL)"
  proof (rule find_chain)
    show "successively (lnk s) (head s # rest @ [head s])" by (rule ring_chain(1)[OF r2])
    show "head s \<notin> set rest" by (rule ring_chain(2)[OF r2])
    show "\<forall>a\<in>set (head s # rest). entry_at s a \<noteq> None" using r x by (simp add: ring_def)
  qed
  with x show ?thesis by (simp add: aug_entry_find_def)
qed

text \<open>The result of the lookup on a well-formed list: the first cell with the path, if any.\<close>

lemma find_None_iff: "(List.find P xs = None) = (\<forall>x\<in>set xs. \<not> P x)"
  by (induction xs) auto

lemma find_SomeD: "List.find P xs = Some a \<Longrightarrow> a \<in> set xs \<and> P a"
  by (induction xs) (auto split: if_splits)

lemma aug_entry_find_cases:
  assumes r: "ring s xs"
  obtains (absent) "aug_entry_find path s = Some NULL" "path \<notin> pth s ` set xs"
  | (present) a where "aug_entry_find path s = Some a" "a \<in> set xs" "a \<noteq> NULL" "pth s a = path"
      "List.find (\<lambda>a. pth s a = path) xs = Some a"
proof (cases "List.find (\<lambda>a. pth s a = path) xs")
  case None
  then have np: "path \<notin> pth s ` set xs" unfolding find_None_iff by blast
  from None have "aug_entry_find path s = Some NULL"
    by (simp add: aug_entry_find_ring[OF r])
  then show ?thesis using np by (rule absent)
next
  case (Some a)
  from find_SomeD[OF Some] have a: "a \<in> set xs" "pth s a = path" by simp_all
  from ring_brk[OF r] have "NULL \<notin> set xs" by simp
  with a(1) have "a \<noteq> NULL" by (intro notI) simp
  moreover from Some have "aug_entry_find path s = Some a"
    by (simp add: aug_entry_find_ring[OF r])
  ultimately show ?thesis using a Some by (intro present[of a])
qed

lemma aug_entry_find_disj:
  assumes r: "ring s xs"
  shows "(aug_entry_find path s = Some NULL \<and> path \<notin> pth s ` set xs)
         \<or> (\<exists>a. aug_entry_find path s = Some a \<and> a \<in> set xs \<and> a \<noteq> NULL \<and> pth s a = path
                \<and> List.find (\<lambda>a. pth s a = path) xs = Some a)"
  by (rule aug_entry_find_cases[OF r, of path]) blast+

subsection \<open>The scans of aug_match and aug_ls\<close>

fun match_list ::
  "string \<Rightarrow> int \<Rightarrow> int \<Rightarrow> string option list \<Rightarrow> string list \<Rightarrow> (int \<times> string option list) option" where
  "match_list pat msize cnt m [] = Some (cnt, m)"
| "match_list pat msize cnt m (q # qs) =
     (if fnmatch pat q [FNM_NOESCAPE] = 0 then
        (if cnt < msize then
           (if 0 \<le> cnt \<and> nat cnt < length m
            then match_list pat msize (cnt + 1) (m[nat cnt := Some q]) qs
            else None)
         else match_list pat msize (cnt + 1) m qs)
      else match_list pat msize cnt m qs)"

fun ls_list ::
  "string \<Rightarrow> int \<Rightarrow> string option list option \<Rightarrow> string list
     \<Rightarrow> (int \<times> string option list option) option" where
  "ls_list path cnt ch [] = Some (cnt, ch)"
| "ls_list path cnt ch (q # qs) =
     (if ls_child path q then
        (case ch of
           None \<Rightarrow> ls_list path (cnt + 1) None qs
         | Some arr \<Rightarrow>
             if 0 \<le> cnt \<and> nat cnt < length arr
             then ls_list path (cnt + 1) (Some (arr[nat cnt := Some q])) qs
             else None)
      else ls_list path cnt ch qs)"

lemma match_chain:
  assumes "successively (lnk s) (p # post @ [head s])" and "head s \<notin> set post"
    and "\<forall>a\<in>set (p # post). entry_at s a \<noteq> None"
  shows "match_loop pat msize s p cnt m = match_list pat msize cnt m (map (pth s) (p # post))"
  using assms
proof (induction post arbitrary: p cnt m)
  case Nil
  then have "entry_at s p \<noteq> None" by simp
  from cell_of_entry[OF this] obtain e where e: "deref s p = Some e" "e_path e = Some (pth s p)"
    by blast
  from Nil.prems(1) e have n: "e_next e = head s" by (simp add: lnk_def nx_def)
  show ?case
    by (subst match_loop.simps) (simp add: e n)
next
  case (Cons x post)
  then have "entry_at s p \<noteq> None" by simp
  from cell_of_entry[OF this] obtain e where e: "deref s p = Some e" "e_path e = Some (pth s p)"
    by blast
  from Cons.prems(1) e have n: "e_next e = x" by (simp add: lnk_def nx_def)
  from Cons.prems have xh: "x \<noteq> head s" by simp
  have ih: "match_loop pat msize s x c k = match_list pat msize c k (map (pth s) (x # post))" for c k
    using Cons.prems by (intro Cons.IH) simp_all
  show ?case
    by (subst match_loop.simps) (simp add: e n xh ih del: match_list.simps list.map, simp)
qed

lemma ls_chain:
  assumes "successively (lnk s) (p # post @ [head s])" and "head s \<notin> set post"
    and "\<forall>a\<in>set (p # post). entry_at s a \<noteq> None"
  shows "ls_loop path s p cnt ch = ls_list path cnt ch (map (pth s) (p # post))"
  using assms
proof (induction post arbitrary: p cnt ch)
  case Nil
  then have "entry_at s p \<noteq> None" by simp
  from cell_of_entry[OF this] obtain e where e: "deref s p = Some e" "e_path e = Some (pth s p)"
    by blast
  from Nil.prems(1) e have n: "e_next e = head s" by (simp add: lnk_def nx_def)
  show ?case
    by (subst ls_loop.simps) (simp add: e n split: option.splits)
next
  case (Cons x post)
  then have "entry_at s p \<noteq> None" by simp
  from cell_of_entry[OF this] obtain e where e: "deref s p = Some e" "e_path e = Some (pth s p)"
    by blast
  from Cons.prems(1) e have n: "e_next e = x" by (simp add: lnk_def nx_def)
  from Cons.prems have xh: "x \<noteq> head s" by simp
  have ih: "ls_loop path s x c k = ls_list path c k (map (pth s) (x # post))" for c k
    using Cons.prems by (intro Cons.IH) simp_all
  show ?case
    by (subst ls_loop.simps) (simp add: e n xh ih del: ls_list.simps list.map, simp split: option.splits)
qed

lemma ring_head_chain:
  assumes r: "ring s xs"
  obtains rest where "xs = head s # rest" "successively (lnk s) (head s # rest @ [head s])"
    "head s \<notin> set rest" "\<forall>a\<in>set (head s # rest). entry_at s a \<noteq> None"
proof -
  from r obtain rest where x: "xs = head s # rest" by (cases xs) (auto simp: ring_def cyc_def)
  with r have r2: "ring s ([] @ head s # rest)" by simp
  show ?thesis
  proof (rule that[of rest])
    show "xs = head s # rest" by (rule x)
    show "successively (lnk s) (head s # rest @ [head s])" by (rule ring_chain(1)[OF r2])
    show "head s \<notin> set rest" by (rule ring_chain(2)[OF r2])
    show "\<forall>a\<in>set (head s # rest). entry_at s a \<noteq> None" using r x by (simp add: ring_def)
  qed
qed

lemma aug_match_ring:
  assumes r: "ring s xs"
  shows "aug_match pat m msize s = match_list pat msize 0 m (map (pth s) xs)"
proof -
  from r obtain rest where x: "xs = head s # rest"
    and c: "successively (lnk s) (head s # rest @ [head s])" "head s \<notin> set rest"
      "\<forall>a\<in>set (head s # rest). entry_at s a \<noteq> None" by (rule ring_head_chain)
  from match_chain[OF c] x show ?thesis by (simp only: aug_match_def)
qed

lemma ls_loop_ring:
  assumes r: "ring s xs"
  shows "ls_loop path s (head s) cnt ch = ls_list path cnt ch (map (pth s) xs)"
proof -
  from r obtain rest where x: "xs = head s # rest"
    and c: "successively (lnk s) (head s # rest @ [head s])" "head s \<notin> set rest"
      "\<forall>a\<in>set (head s # rest). entry_at s a \<noteq> None" by (rule ring_head_chain)
  from ls_chain[OF c] x show ?thesis by simp
qed

definition matches :: "string \<Rightarrow> string \<Rightarrow> bool" where
  "matches pat q = (fnmatch pat q [FNM_NOESCAPE] = 0)"

lemma match_list_skip:
  "\<not> matches pat q \<Longrightarrow> match_list pat msize c m (q # qs) = match_list pat msize c m qs"
  by (simp add: matches_def)

lemma match_list_over:
  "matches pat q \<Longrightarrow> \<not> c < msize \<Longrightarrow>
   match_list pat msize c m (q # qs) = match_list pat msize (c + 1) m qs"
  by (simp add: matches_def)

lemma match_list_write:
  "matches pat q \<Longrightarrow> c < msize \<Longrightarrow> 0 \<le> c \<Longrightarrow> nat c < length m \<Longrightarrow>
   match_list pat msize c m (q # qs) = match_list pat msize (c + 1) (m[nat c := Some q]) qs"
  by (simp add: matches_def)

lemma match_list_nocap:
  "msize \<le> cnt \<Longrightarrow>
   match_list pat msize cnt m qs = Some (cnt + int (length (filter (matches pat) qs)), m)"
proof (induction qs arbitrary: cnt)
  case Nil
  then show ?case by simp
next
  case (Cons q qs)
  show ?case
  proof (cases "matches pat q")
    case True
    from Cons.prems have "msize \<le> cnt + 1" and "\<not> cnt < msize" by simp_all
    with Cons.IH[of "cnt + 1"] True show ?thesis by (simp add: match_list_over del: match_list.simps)
  next
    case False
    with Cons.IH[OF Cons.prems] show ?thesis by (simp add: match_list_skip del: match_list.simps)
  qed
qed

lemma match_list_cap:
  "msize \<le> int (length m) \<Longrightarrow>
   \<exists>m'. match_list pat msize (int k) m qs = Some (int (k + length (filter (matches pat) qs)), m')
     \<and> length m' = length m
     \<and> (\<forall>i<length m. m' ! i =
          (if k \<le> i \<and> int i < msize \<and> i < k + length (filter (matches pat) qs)
           then Some (filter (matches pat) qs ! (i - k)) else m ! i))"
proof (induction qs arbitrary: k m)
  case Nil
  then show ?case by auto
next
  case (Cons q qs)
  let ?fs = "filter (matches pat) qs"
  show ?case
  proof (cases "matches pat q")
    case False
    then have f1: "filter (matches pat) (q # qs) = ?fs" by simp
    show ?thesis unfolding f1 match_list_skip[OF False] by (rule Cons.IH[OF Cons.prems])
  next
    case True
    note mq = this
    then have fq: "filter (matches pat) (q # qs) = q # ?fs" by simp
    show ?thesis
    proof (cases "int k < msize")
      case False
      from Cons.IH[OF Cons.prems, of "Suc k"] obtain m' where
        m': "match_list pat msize (int (Suc k)) m qs = Some (int (Suc k + length ?fs), m')"
        "length m' = length m"
        "\<forall>i<length m. m' ! i = (if Suc k \<le> i \<and> int i < msize \<and> i < Suc k + length ?fs
           then Some (?fs ! (i - Suc k)) else m ! i)" by blast
      have "\<forall>i<length m. m' ! i = (if k \<le> i \<and> int i < msize \<and> i < k + length (q # ?fs)
           then Some ((q # ?fs) ! (i - k)) else m ! i)"
      proof (intro allI impI)
        fix i assume "i < length m"
        with m'(3) have "m' ! i = (if Suc k \<le> i \<and> int i < msize \<and> i < Suc k + length ?fs
           then Some (?fs ! (i - Suc k)) else m ! i)" by blast
        with False show "m' ! i = (if k \<le> i \<and> int i < msize \<and> i < k + length (q # ?fs)
           then Some ((q # ?fs) ! (i - k)) else m ! i)" by auto
      qed
      moreover have "int k + 1 = int (Suc k)" by simp
      with m'(1) have "match_list pat msize (int k) m (q # qs) = Some (int (k + length (q # ?fs)), m')"
        unfolding match_list_over[OF mq False] by (simp add: add.commute)
      ultimately show ?thesis unfolding fq using m'(2) by blast
    next
      case True
      with Cons.prems have kl: "k < length m" by simp
      let ?m1 = "m[k := Some q]"
      from Cons.prems have "msize \<le> int (length ?m1)" by simp
      from Cons.IH[OF this, of "Suc k"] obtain m' where
        m': "match_list pat msize (int (Suc k)) ?m1 qs = Some (int (Suc k + length ?fs), m')"
        "length m' = length m"
        "\<forall>i<length m. m' ! i = (if Suc k \<le> i \<and> int i < msize \<and> i < Suc k + length ?fs
           then Some (?fs ! (i - Suc k)) else ?m1 ! i)" by auto
      have "\<forall>i<length m. m' ! i = (if k \<le> i \<and> int i < msize \<and> i < k + length (q # ?fs)
           then Some ((q # ?fs) ! (i - k)) else m ! i)"
      proof (intro allI impI)
        fix i assume il: "i < length m"
        with m'(3) have mi: "m' ! i = (if Suc k \<le> i \<and> int i < msize \<and> i < Suc k + length ?fs
           then Some (?fs ! (i - Suc k)) else ?m1 ! i)" by blast
        show "m' ! i = (if k \<le> i \<and> int i < msize \<and> i < k + length (q # ?fs)
           then Some ((q # ?fs) ! (i - k)) else m ! i)"
        proof (cases "i = k")
          case True
          with mi kl \<open>int k < msize\<close> show ?thesis by simp
        next
          case False
          show ?thesis
          proof (cases "i < k")
            case True
            with mi show ?thesis by simp
          next
            case False
            with \<open>i \<noteq> k\<close> have "Suc k \<le> i" by simp
            then obtain j where j: "i = Suc k + j" using le_Suc_ex by blast
            with mi show ?thesis by (simp add: nth_Cons')
          qed
        qed
      qed
      moreover have "int k + 1 = int (Suc k)" and "nat (int k) = k" by simp_all
      with m'(1) kl True
      have "match_list pat msize (int k) m (q # qs) = Some (int (k + length (q # ?fs)), m')"
        by (simp add: match_list_write[OF mq] add.commute del: match_list.simps)
      ultimately show ?thesis unfolding fq using m'(2) by blast
    qed
  qed
qed

lemma ls_list_count:
  "ls_list path cnt None qs = Some (cnt + int (length (filter (ls_child path) qs)), None)"
  by (induction qs arbitrary: cnt) simp_all

lemma ls_list_fill:
  "ls_list path (int (length dn)) (Some (map Some dn @ replicate (length (filter (ls_child path) qs)) None)) qs
   = Some (int (length dn + length (filter (ls_child path) qs)), Some (map Some (dn @ filter (ls_child path) qs)))"
proof (induction qs arbitrary: dn)
  case Nil
  then show ?case by simp
next
  case (Cons q qs)
  show ?case
  proof (cases "ls_child path q")
    case False
    with Cons.IH[of dn] show ?thesis by simp
  next
    case True
    let ?n = "length (filter (ls_child path) qs)"
    have upd: "(map Some dn @ replicate (Suc ?n) None)[length dn := Some q]
          = map Some (dn @ [q]) @ replicate ?n None"
      using list_update_length[of "map Some dn" None "replicate ?n None" "Some q"] by simp
    from Cons.IH[of "dn @ [q]"] True upd show ?thesis by (simp add: add.commute)
  qed
qed

lemma ring_alloc: "ring s xs \<Longrightarrow> ring (s\<lparr>alloc_ok := oks\<rparr>) xs"
  using ring_frame[of s xs "s\<lparr>alloc_ok := oks\<rparr>"] by simp

lemma pth_alloc [simp]: "pth (s\<lparr>alloc_ok := oks\<rparr>) = pth s"
  by (rule ext) (simp add: pth_def entry_at_def)

lemma aug_ls_ring:
  assumes r: "ring s xs" and fs: "fs = filter (ls_child path) (map (pth s) xs)"
  shows "aug_ls path want s =
         (if \<not> want then Some ((int (length fs), None), s)
          else if alloc_ok s = [] \<or> hd (alloc_ok s)
               then Some ((int (length fs), Some (map Some fs)), s\<lparr>alloc_ok := tl (alloc_ok s)\<rparr>)
               else Some ((-1, None), s\<lparr>alloc_ok := tl (alloc_ok s)\<rparr>))"
proof -
  let ?s1 = "s\<lparr>alloc_ok := tl (alloc_ok s)\<rparr>"
  have p1: "ls_loop path s (head s) 0 None = Some (int (length fs), None)"
    unfolding ls_loop_ring[OF r] ls_list_count fs by simp
  have r1: "ring ?s1 xs" using r by (rule ring_alloc)
  have "ls_loop path ?s1 (head ?s1) (int (length ([]::string list)))
          (Some (map Some [] @ replicate (length (filter (ls_child path) (map (pth s) xs))) None))
        = Some (int (length ([]::string list) + length (filter (ls_child path) (map (pth s) xs))),
                Some (map Some ([] @ filter (ls_child path) (map (pth s) xs))))"
    unfolding ls_loop_ring[OF r1] pth_alloc by (rule ls_list_fill)
  then have p2: "ls_loop path ?s1 (head s) 0 (Some (replicate (length fs) None))
        = Some (int (length fs), Some (map Some fs))"
    unfolding fs[symmetric] by simp
  show ?thesis
  proof (cases "alloc_ok s = []")
    case True
    with p2 have "ls_loop path (s\<lparr>alloc_ok := []\<rparr>) (head s) 0 (Some (replicate (length fs) None))
        = Some (int (length fs), Some (map Some fs))" by simp
    with True show ?thesis by (simp add: aug_ls_def p1 next_alloc_eq)
  next
    case False
    then show ?thesis by (simp add: aug_ls_def p1 next_alloc_eq p2)
  qed
qed

lemma strrchr_None: "(strrchr p c = None) = (c \<notin> set p)"
  by (induction p) (auto split: option.splits)

text \<open>
  The part of a path before its last separator, as the description of \<^verbatim>\<open>aug_insert\<close>
  words it ("the substrings before the last separator"); empty when there is no separator.
\<close>

definition parent_prefix :: "string \<Rightarrow> string" where
  "parent_prefix p = (case strrchr p SEP of Some i \<Rightarrow> take i p | None \<Rightarrow> [])"

lemma circular_paths:
  assumes "circular s" and "paths s = Some ps"
  obtains xs where "ring s xs" "map (pth s) xs = ps"
proof -
  from assms(1) obtain xs where r: "ring s xs" using circular_ring by blast
  from ring_paths[OF r] assms(2) have "map (pth s) xs = ps" by simp
  with r show ?thesis by (rule that)
qed

lemma glob_examples:
  "matches ''/a/*'' ''/a/b''" "matches ''/a/*'' ''/a/c''" "matches ''/a/*'' ''/a/b/c''"
  "\<not> matches ''/a/*'' ''/a''" "\<not> matches ''/a/*'' ''/system''"
  "\<not> matches ''/a/*'' ''/system/config''"
  by (simp_all add: matches_def fnmatch_def FNM_NOMATCH_def)

lemma ls_examples:
  "ls_child ''/a'' ''/a/b''" "\<not> ls_child ''/a'' ''/a/b/c''" "\<not> ls_child ''/a'' ''/a''"
  "\<not> ls_child ''/a'' ''/system''" "\<not> ls_child ''/a'' ''/system/config''"
  by (simp_all add: ls_child_def pathprefix_def pathlen_def SEP_def)

lemma filter_six:
  assumes "mset ps = mset [''/system'', ''/system/config'', ''/a'', ''/a/b'', ''/a/c'', ''/a/b/c'']"
  shows "filter (matches ''/a/*'') ps = filter (\<lambda>q. q \<in> {''/a/b'', ''/a/c'', ''/a/b/c''}) ps"
    and "length (filter (matches ''/a/*'') ps) = 3"
proof -
  from assms have st: "set ps = set [''/system'', ''/system/config'', ''/a'', ''/a/b'', ''/a/c'', ''/a/b/c'']"
    by (rule mset_eq_setD)
  show "filter (matches ''/a/*'') ps = filter (\<lambda>q. q \<in> {''/a/b'', ''/a/c'', ''/a/b/c''}) ps"
  proof (rule filter_cong[OF refl])
    fix q assume "q \<in> set ps"
    then have "q \<in> set [''/system'', ''/system/config'', ''/a'', ''/a/b'', ''/a/c'', ''/a/b/c'']"
      unfolding st .
    then have "q = ''/system'' \<or> q = ''/system/config'' \<or> q = ''/a'' \<or> q = ''/a/b''
       \<or> q = ''/a/c'' \<or> q = ''/a/b/c''" by simp
    then show "matches ''/a/*'' q = (q \<in> {''/a/b'', ''/a/c'', ''/a/b/c''})"
      using glob_examples by auto
  qed
  have "mset (filter (matches ''/a/*'') ps)
        = filter_mset (matches ''/a/*'') (mset [''/system'', ''/system/config'', ''/a'', ''/a/b'', ''/a/c'', ''/a/b/c''])"
    unfolding mset_filter assms ..
  also have "\<dots> = mset [''/a/b'', ''/a/c'', ''/a/b/c'']"
    using glob_examples by simp
  finally have "size (mset (filter (matches ''/a/*'') ps)) = size (mset [''/a/b'', ''/a/c'', ''/a/b/c''])"
    by (rule arg_cong)
  then have "length (filter (matches ''/a/*'') ps) = length [''/a/b'', ''/a/c'', ''/a/b/c'']"
    unfolding size_mset .
  then show "length (filter (matches ''/a/*'') ps) = 3" by simp
qed

lemma filter_five:
  assumes "mset ps = mset [''/system'', ''/system/config'', ''/a'', ''/a/b'', ''/a/b/c'']"
  shows "filter (ls_child ''/a'') ps = [''/a/b'']"
proof -
  have "mset (filter (ls_child ''/a'') ps)
        = filter_mset (ls_child ''/a'') (mset [''/system'', ''/system/config'', ''/a'', ''/a/b'', ''/a/b/c''])"
    unfolding mset_filter assms ..
  also have "\<dots> = {#''/a/b''#}" using ls_examples by simp
  finally have "mset (filter (ls_child ''/a'') ps) = {#''/a/b''#}" .
  then show ?thesis unfolding mset_single_iff .
qed

lemma pth_entry: "entry_at t a = entry_at s a \<Longrightarrow> pth t a = pth s a"
  by (simp add: pth_def)

lemma vlu_entry: "entry_at t a = entry_at s a \<Longrightarrow> vlu t a = vlu s a"
  by (simp add: vlu_def)

lemma pth_vlu_of_entry: "entry_at s a = Some (q, v) \<Longrightarrow> pth s a = q \<and> vlu s a = v"
  by (simp add: pth_def vlu_def)

definition is_sep_at :: "string \<Rightarrow> nat \<Rightarrow> bool" where
  "is_sep_at path k = (k < length path \<and> path ! k = SEP)"

lemma make_loop_ring:
  assumes "ring s xs"
  shows "\<exists>ok t ys. make_loop path i s = Some (ok, t) \<and> ring t (xs @ ys) \<and> head t = head s
           \<and> (\<forall>a\<in>set xs. entry_at t a = entry_at s a)
           \<and> (\<forall>a\<in>set ys. vlu t a = None \<and> (\<exists>k\<ge>i. is_sep_at path k \<and> pth t a = take k path))
           \<and> (ok \<longrightarrow> (\<forall>k\<ge>i. is_sep_at path k \<longrightarrow> take k path \<in> pth t ` set (xs @ ys)))"
  using assms
proof (induction "length path - i" arbitrary: i s xs)
  case 0
  then have "\<not> i < length path" by simp
  then have m: "make_loop path i s = Some (True, s)" by (subst make_loop.simps) simp
  have "\<forall>k\<ge>i. \<not> is_sep_at path k" using \<open>\<not> i < length path\<close> by (simp add: is_sep_at_def)
  with m "0.prems" show ?case
    by (intro exI[of _ True] exI[of _ s] exI[of _ "[]"]) simp
next
  case (Suc n)
  then have il: "i < length path" and n: "n = length path - Suc i" by simp_all
  note r = Suc.prems
  have step: "\<exists>ok t ys. make_loop path i s = Some (ok, t) \<and> ring t (xs @ ys) \<and> head t = head s
           \<and> (\<forall>a\<in>set xs. entry_at t a = entry_at s a)
           \<and> (\<forall>a\<in>set ys. vlu t a = None \<and> (\<exists>k\<ge>i. is_sep_at path k \<and> pth t a = take k path))
           \<and> (ok \<longrightarrow> (\<forall>k\<ge>i. is_sep_at path k \<longrightarrow> take k path \<in> pth t ` set (xs @ ys)))"
    if rec: "make_loop path i s = make_loop path (Suc i) s"
      and here: "is_sep_at path i \<longrightarrow> take i path \<in> pth s ` set xs"
  proof -
    from Suc.hyps(1)[OF n r] obtain ok t ys where
      h: "make_loop path (Suc i) s = Some (ok, t)" "ring t (xs @ ys)" "head t = head s"
      "\<forall>a\<in>set xs. entry_at t a = entry_at s a"
      "\<forall>a\<in>set ys. vlu t a = None \<and> (\<exists>k\<ge>Suc i. is_sep_at path k \<and> pth t a = take k path)"
      "ok \<longrightarrow> (\<forall>k\<ge>Suc i. is_sep_at path k \<longrightarrow> take k path \<in> pth t ` set (xs @ ys))" by blast
    have a5: "\<forall>a\<in>set ys. vlu t a = None \<and> (\<exists>k\<ge>i. is_sep_at path k \<and> pth t a = take k path)"
    proof
      fix a assume "a \<in> set ys"
      with h(5) obtain k where "vlu t a = None" "Suc i \<le> k" "is_sep_at path k" "pth t a = take k path"
        by blast
      then show "vlu t a = None \<and> (\<exists>k\<ge>i. is_sep_at path k \<and> pth t a = take k path)"
        using Suc_leD by blast
    qed
    have a6: "\<forall>k\<ge>i. is_sep_at path k \<longrightarrow> take k path \<in> pth t ` set (xs @ ys)" if ok
    proof (intro allI impI)
      fix k assume ki: "i \<le> k" and sk: "is_sep_at path k"
      show "take k path \<in> pth t ` set (xs @ ys)"
      proof (cases "k = i")
        case True
        with sk here obtain a where a: "a \<in> set xs" "pth s a = take i path" by auto
        with h(4) have "pth t a = take i path" using pth_entry[of t a s] by simp
        with a True show ?thesis by force
      next
        case False
        with ki have "Suc i \<le> k" by simp
        with h(6) \<open>ok\<close> sk show ?thesis by blast
      qed
    qed
    from h(1) rec have "make_loop path i s = Some (ok, t)" by simp
    with h(2,3,4) a5 a6 show ?thesis by blast
  qed
  show ?case
  proof (cases "path ! i = SEP")
    case False
    then have "make_loop path i s = make_loop path (Suc i) s"
      using il by (subst make_loop.simps) simp
    moreover from False have "is_sep_at path i \<longrightarrow> take i path \<in> pth s ` set xs"
      by (simp add: is_sep_at_def)
    ultimately show ?thesis by (rule step)
  next
    case True
    note sep = this
    from aug_entry_find_disj[OF r, of "take i path"]
    consider (absent) "aug_entry_find (take i path) s = Some NULL" "take i path \<notin> pth s ` set xs"
      | (present) a where "aug_entry_find (take i path) s = Some a" "a \<in> set xs" "a \<noteq> NULL"
          "pth s a = take i path"
      by blast
    then show ?thesis
    proof cases
      case (present a)
      from present(1,3) sep il have "make_loop path i s = make_loop path (Suc i) s"
        by (subst make_loop.simps) simp
      moreover from present(2,4) have "is_sep_at path i \<longrightarrow> take i path \<in> pth s ` set xs" by force
      ultimately show ?thesis by (rule step)
    next
      case absent
      from aug_entry_insert_tail[OF r, of "take i path"] obtain e t where
        ins: "aug_entry_insert (take i path) (head s) s = Some (e, t)" "head t = head s"
        "\<forall>a\<in>set xs. entry_at t a = entry_at s a"
        "e = NULL \<longrightarrow> ring t xs"
        "e \<noteq> NULL \<longrightarrow> e = brk s \<and> entry_at t e = Some (take i path, None) \<and> ring t (xs @ [e])"
        by auto
      show ?thesis
      proof (cases "e = NULL")
        case True
        with ins(1) absent(1) sep il have "make_loop path i s = Some (False, t)"
          by (subst make_loop.simps) simp
        moreover from True ins(4) have "ring t (xs @ [])" by simp
        ultimately show ?thesis using ins(2,3)
          by (intro exI[of _ False] exI[of _ t] exI[of _ "[]"]) simp
      next
        case False
        with ins(5) have c5: "e = brk s \<and> entry_at t e = Some (take i path, None) \<and> ring t (xs @ [e])"
          by (rule mp)
        from c5 have e: "entry_at t e = Some (take i path, None)" by (rule conjunct1[OF conjunct2])
        from c5 have rt: "ring t (xs @ [e])" by (rule conjunct2[OF conjunct2])
        from False ins(1) absent(1) sep il have ml: "make_loop path i s = make_loop path (Suc i) t"
          by (subst make_loop.simps) simp
        from Suc.hyps(1)[OF n rt] obtain ok u ys where
          h: "make_loop path (Suc i) t = Some (ok, u)" "ring u ((xs @ [e]) @ ys)" "head u = head t"
          "\<forall>a\<in>set (xs @ [e]). entry_at u a = entry_at t a"
          "\<forall>a\<in>set ys. vlu u a = None \<and> (\<exists>k\<ge>Suc i. is_sep_at path k \<and> pth u a = take k path)"
          "ok \<longrightarrow> (\<forall>k\<ge>Suc i. is_sep_at path k \<longrightarrow> take k path \<in> pth u ` set ((xs @ [e]) @ ys))"
          by blast
        from h(4) e have eu: "entry_at u e = Some (take i path, None)" by simp
        then have pe: "pth u e = take i path" "vlu u e = None"
          using pth_vlu_of_entry by blast+
        have si: "is_sep_at path i" using sep il by (simp add: is_sep_at_def)
        have b1: "make_loop path i s = Some (ok, u)" using ml h(1) by simp
        have b2: "ring u (xs @ (e # ys))" using h(2) by simp
        have b3: "head u = head s" using h(3) ins(2) by simp
        have b4: "\<forall>a\<in>set xs. entry_at u a = entry_at s a" using h(4) ins(3) by simp
        have b5: "\<forall>a\<in>set (e # ys). vlu u a = None \<and> (\<exists>k\<ge>i. is_sep_at path k \<and> pth u a = take k path)"
        proof
          fix a assume "a \<in> set (e # ys)"
          then consider "a = e" | "a \<in> set ys" by auto
          then show "vlu u a = None \<and> (\<exists>k\<ge>i. is_sep_at path k \<and> pth u a = take k path)"
          proof cases
            case 1
            with pe si show ?thesis by blast
          next
            case 2
            with h(5) obtain k where "vlu u a = None" "Suc i \<le> k" "is_sep_at path k" "pth u a = take k path"
              by blast
            then show ?thesis using Suc_leD by blast
          qed
        qed
        have b6: "\<forall>k\<ge>i. is_sep_at path k \<longrightarrow> take k path \<in> pth u ` set (xs @ (e # ys))" if ok
        proof (intro allI impI)
          fix k assume ki: "i \<le> k" and sk: "is_sep_at path k"
          show "take k path \<in> pth u ` set (xs @ (e # ys))"
          proof (cases "k = i")
            case True
            with pe(1) show ?thesis by force
          next
            case False
            with ki have "Suc i \<le> k" by simp
            with h(6) \<open>ok\<close> sk show ?thesis by simp
          qed
        qed
        from b1 b2 b3 b4 b5 b6 show ?thesis by blast
      qed
    qed
  qed
qed

definition write_value :: "string \<Rightarrow> addr \<Rightarrow> store \<Rightarrow> (int \<times> store) option" where
  "write_value val p s1 =
     do {
       _ \<leftarrow> deref s1 p;
       let (v, s2) = strdup val s1;
       s3 \<leftarrow> upd p (\<lambda>c. c\<lparr>e_value := v\<rparr>) s2;
       if v = None then Some (-1, s3) else Some (0, s3)
     }"

lemma aug_set_unfold:
  "aug_set path val s =
     do {
       f \<leftarrow> aug_entry_find path s;
       (p, s1) \<leftarrow> (if f = NULL then aug_entry_make path (head s) s else Some (f, s));
       if p = NULL then Some (-1, s1) else write_value val p s1
     }"
  unfolding aug_set_def write_value_def by (rule refl)

lemma ring_frame2:
  assumes r: "ring s xs" and h: "head t = head s" and b: "brk s \<le> brk t"
    and f: "\<forall>x\<in>set xs. nx t x = nx s x \<and> pv t x = pv s x \<and> entry_at t x \<noteq> None"
  shows "ring t xs"
proof -
  from r have "cyc s xs" by (simp add: ring_def)
  moreover from f have "\<forall>x\<in>set xs. nx t x = nx s x \<and> pv t x = pv s x" by blast
  ultimately have "cyc t xs" by (rule cyc_frame)
  moreover have "\<forall>a\<in>set xs. a < brk t \<and> entry_at t a \<noteq> None"
  proof
    fix a assume a: "a \<in> set xs"
    with r have "a < brk s" by (simp add: ring_def)
    with b f a show "a < brk t \<and> entry_at t a \<noteq> None" by auto
  qed
  ultimately show ?thesis using r h by (simp add: ring_def)
qed

lemma write_value_ring:
  assumes r: "ring s xs" and a: "a \<in> set xs"
  shows "\<exists>rc t. write_value val a s = Some (rc, t) \<and> ring t xs \<and> head t = head s
           \<and> (\<forall>x\<in>set xs. pth t x = pth s x)
           \<and> (\<forall>x\<in>set xs. x \<noteq> a \<longrightarrow> vlu t x = vlu s x)
           \<and> (rc = 0 \<longrightarrow> vlu t a = Some val)"
proof -
  from ring_brk[OF r] a have a0: "a \<noteq> NULL" by (intro notI) simp
  from ring_entries[OF r a] have "entry_at s a \<noteq> None" .
  from cell_of_entry[OF this] obtain c where c: "deref s a = Some c" "e_path c = Some (pth s a)"
    by blast
  define v where "v = (if alloc_ok s = [] \<or> hd (alloc_ok s) then Some val else None)"
  define t where "t = s\<lparr>alloc_ok := tl (alloc_ok s), heap := (heap s)(a \<mapsto> c\<lparr>e_value := v\<rparr>)\<rparr>"
  have w: "write_value val a s = Some (if v = None then -1 else 0, t)"
    using c a0 by (simp add: write_value_def strdup_def next_alloc_eq upd_def v_def t_def deref_def)
  have d: "deref t x = (if x = a then Some (c\<lparr>e_value := v\<rparr>) else deref s x)" for x
    using a0 by (simp add: t_def deref_def)
  have nxp: "nx t x = nx s x \<and> pv t x = pv s x" for x
    using c by (simp add: nx_def pv_def d)
  have ea: "entry_at t a = Some (pth s a, v)" using c by (simp add: entry_at_def d)
  have eo: "entry_at t x = entry_at s x" if "x \<noteq> a" for x using that by (simp add: entry_at_def d)
  have en: "entry_at t x \<noteq> None" if "x \<in> set xs" for x
  proof (cases "x = a")
    case True
    with ea show ?thesis by simp
  next
    case False
    with eo[OF False] ring_entries[OF r that] show ?thesis by simp
  qed
  have rt: "ring t xs"
  proof (rule ring_frame2[OF r])
    show "head t = head s" by (simp add: t_def)
    show "brk s \<le> brk t" by (simp add: t_def)
    show "\<forall>x\<in>set xs. nx t x = nx s x \<and> pv t x = pv s x \<and> entry_at t x \<noteq> None"
      using nxp en by blast
  qed
  have p1: "\<forall>x\<in>set xs. pth t x = pth s x"
  proof
    fix x assume "x \<in> set xs"
    show "pth t x = pth s x"
    proof (cases "x = a")
      case True
      with ea show ?thesis by (simp add: pth_def)
    next
      case False
      from eo[OF this] show ?thesis by (rule pth_entry)
    qed
  qed
  have p2: "\<forall>x\<in>set xs. x \<noteq> a \<longrightarrow> vlu t x = vlu s x"
    using eo vlu_entry by blast
  have p3: "(if v = None then -1 else (0::int)) = 0 \<longrightarrow> vlu t a = Some val"
    using ea by (auto simp: vlu_def v_def split: if_splits)
  have "head t = head s" by (simp add: t_def)
  with w rt p1 p2 p3 show ?thesis by blast
qed

lemma aug_entry_make_ring:
  assumes r: "ring s xs" and n: "xs = us @ nxt # vs" and path: "path = take (pathlen p) p"
    and pne: "path \<noteq> []"
  shows "\<exists>e t ys. aug_entry_make p nxt s = Some (e, t) \<and> head t = head s
     \<and> (\<forall>a\<in>set xs. entry_at t a = entry_at s a)
     \<and> (\<forall>a\<in>set ys. vlu t a = None \<and> (\<exists>k\<ge>1. is_sep_at path k \<and> pth t a = take k path))
     \<and> (e = NULL \<longrightarrow> ring t (xs @ ys))
     \<and> (e \<noteq> NULL \<longrightarrow> e \<notin> set (xs @ ys) \<and> entry_at t e = Some (path, None)
          \<and> (us = [] \<longrightarrow> ring t (xs @ ys @ [e]))
          \<and> (us \<noteq> [] \<longrightarrow> ring t (us @ e # nxt # vs @ ys))
          \<and> (\<forall>k\<ge>1. is_sep_at path k \<longrightarrow> take k path \<in> pth t ` set (xs @ ys)))"
proof -
  from make_loop_ring[OF r, of path 1] obtain ok s1 ys where
    m: "make_loop path 1 s = Some (ok, s1)" "ring s1 (xs @ ys)" "head s1 = head s"
    "\<forall>a\<in>set xs. entry_at s1 a = entry_at s a"
    "\<forall>a\<in>set ys. vlu s1 a = None \<and> (\<exists>k\<ge>1. is_sep_at path k \<and> pth s1 a = take k path)"
    "ok \<longrightarrow> (\<forall>k\<ge>1. is_sep_at path k \<longrightarrow> take k path \<in> pth s1 ` set (xs @ ys))" by blast
  have mk: "aug_entry_make p nxt s = (if ok then aug_entry_insert path nxt s1 else Some (NULL, s1))"
    using pne m(1) by (simp add: aug_entry_make_def path[symmetric])
  show ?thesis
  proof (cases ok)
    case False
    with mk have "aug_entry_make p nxt s = Some (NULL, s1)" by simp
    with m(2,3,4,5) show ?thesis
      by (intro exI[of _ NULL] exI[of _ s1] exI[of _ ys]) simp
  next
    case True
    from n have n2: "xs @ ys = us @ nxt # (vs @ ys)" by simp
    from aug_entry_insert_ring[OF m(2) n2, of path] obtain e t where
      i: "aug_entry_insert path nxt s1 = Some (e, t)" "head t = head s1"
      "\<forall>a\<in>set (xs @ ys). entry_at t a = entry_at s1 a"
      "e = NULL \<longrightarrow> ring t (xs @ ys)"
      "e \<noteq> NULL \<longrightarrow> e = brk s1 \<and> entry_at t e = Some (path, None)
               \<and> (us = [] \<longrightarrow> ring t ((xs @ ys) @ [e]))
               \<and> (us \<noteq> [] \<longrightarrow> ring t (us @ e # nxt # (vs @ ys)))" by auto
    from True mk i(1) have c1: "aug_entry_make p nxt s = Some (e, t)" by simp
    have c2: "head t = head s" using i(2) m(3) by simp
    have c3: "\<forall>a\<in>set xs. entry_at t a = entry_at s a" using i(3) m(4) by simp
    have pt: "pth t a = pth s1 a \<and> vlu t a = vlu s1 a" if "a \<in> set (xs @ ys)" for a
    proof -
      from i(3) that have "entry_at t a = entry_at s1 a" by blast
      then show ?thesis using pth_entry vlu_entry by blast
    qed
    have c4: "\<forall>a\<in>set ys. vlu t a = None \<and> (\<exists>k\<ge>1. is_sep_at path k \<and> pth t a = take k path)"
    proof
      fix a assume a: "a \<in> set ys"
      then have "a \<in> set (xs @ ys)" by simp
      from pt[OF this] m(5) a show "vlu t a = None \<and> (\<exists>k\<ge>1. is_sep_at path k \<and> pth t a = take k path)"
        by simp
    qed
    have c6: "e \<noteq> NULL \<longrightarrow> e \<notin> set (xs @ ys) \<and> entry_at t e = Some (path, None)
          \<and> (us = [] \<longrightarrow> ring t (xs @ ys @ [e]))
          \<and> (us \<noteq> [] \<longrightarrow> ring t (us @ e # nxt # vs @ ys))
          \<and> (\<forall>k\<ge>1. is_sep_at path k \<longrightarrow> take k path \<in> pth t ` set (xs @ ys))"
    proof
      assume "e \<noteq> NULL"
      with i(5) have j: "e = brk s1 \<and> entry_at t e = Some (path, None)
               \<and> (us = [] \<longrightarrow> ring t ((xs @ ys) @ [e]))
               \<and> (us \<noteq> [] \<longrightarrow> ring t (us @ e # nxt # (vs @ ys)))" by (rule mp)
      from j have eb: "e = brk s1" by (rule conjunct1)
      from ring_brk[OF m(2)] have "brk s1 \<notin> set (xs @ ys)" by simp
      with eb have d1: "e \<notin> set (xs @ ys)" by simp
      from j have d2: "entry_at t e = Some (path, None)" by (rule conjunct1[OF conjunct2])
      from j have "us = [] \<longrightarrow> ring t ((xs @ ys) @ [e])" by blast
      then have d3: "us = [] \<longrightarrow> ring t (xs @ ys @ [e])" by simp
      from j have "us \<noteq> [] \<longrightarrow> ring t (us @ e # nxt # (vs @ ys))" by blast
      then have d4: "us \<noteq> [] \<longrightarrow> ring t (us @ e # nxt # vs @ ys)" by simp
      have d5: "\<forall>k\<ge>1. is_sep_at path k \<longrightarrow> take k path \<in> pth t ` set (xs @ ys)"
      proof (intro allI impI)
        fix k assume "1 \<le> k" "is_sep_at path k"
        with m(6) True obtain a where a: "a \<in> set (xs @ ys)" "take k path = pth s1 a" by blast
        from pt[OF a(1)] a(2) have "take k path = pth t a" by simp
        with a(1) show "take k path \<in> pth t ` set (xs @ ys)" by blast
      qed
      from d1 d2 d3 d4 d5 show "e \<notin> set (xs @ ys) \<and> entry_at t e = Some (path, None)
          \<and> (us = [] \<longrightarrow> ring t (xs @ ys @ [e]))
          \<and> (us \<noteq> [] \<longrightarrow> ring t (us @ e # nxt # vs @ ys))
          \<and> (\<forall>k\<ge>1. is_sep_at path k \<longrightarrow> take k path \<in> pth t ` set (xs @ ys))" by blast
    qed
    from c1 c2 c3 c4 i(4) c6 show ?thesis by blast
  qed
qed

lemma aug_exists_ring:
  assumes r: "ring s xs"
  shows "aug_exists path s = Some (if path \<in> pth s ` set xs then 1 else 0)"
proof -
  from aug_entry_find_disj[OF r, of path]
  consider (absent) "aug_entry_find path s = Some NULL" "path \<notin> pth s ` set xs"
    | (present) a where "aug_entry_find path s = Some a" "a \<in> set xs" "a \<noteq> NULL" "pth s a = path"
    by blast
  then show ?thesis
  proof cases
    case absent
    then show ?thesis by (simp add: aug_exists_def)
  next
    case (present a)
    from present(2,4) have "path \<in> pth s ` set xs" by blast
    with present(1,3) show ?thesis by (simp add: aug_exists_def)
  qed
qed


lemma find_last:
  "\<forall>x\<in>set xs. \<not> P x \<Longrightarrow> P e \<Longrightarrow> List.find P (xs @ [e]) = Some e"
  by (induction xs) simp_all

lemma find_pth_cong:
  "\<forall>a\<in>set xs. pth t a = pth s a \<Longrightarrow>
   List.find (\<lambda>a. pth t a = p) xs = List.find (\<lambda>a. pth s a = p) xs"
  by (induction xs) simp_all

lemma aug_set_ring:
  assumes r: "ring s xs" and path: "path = take (pathlen p) p"
  shows "(p \<notin> pth s ` set xs \<and> path = [] \<and> aug_set p v s = None) \<or>
         (\<exists>rc t zs. aug_set p v s = Some (rc, t) \<and> ring t (xs @ zs) \<and> head t = head s
            \<and> (\<forall>a\<in>set xs. pth t a = pth s a)
            \<and> (rc = 0 \<longrightarrow>
                 ((p \<in> pth s ` set xs \<or> path = p) \<longrightarrow>
                    (\<exists>a. List.find (\<lambda>a. pth t a = p) (xs @ zs) = Some a \<and> vlu t a = Some v))
                 \<and> (p \<notin> pth s ` set xs \<longrightarrow>
                    (\<forall>k\<ge>1. is_sep_at path k \<longrightarrow> take k path \<in> pth t ` set (xs @ zs)))))"
proof -
  from aug_entry_find_disj[OF r, of p]
  consider (absent) "aug_entry_find p s = Some NULL" "p \<notin> pth s ` set xs"
    | (present) a where "aug_entry_find p s = Some a" "a \<in> set xs" "a \<noteq> NULL" "pth s a = p"
        "List.find (\<lambda>a. pth s a = p) xs = Some a"
    by blast
  then show ?thesis
  proof cases
    case (present a)
    from present(1,3) have u: "aug_set p v s = write_value v a s"
      by (simp add: aug_set_unfold)
    from write_value_ring[OF r present(2), of v] obtain rc t where
      w: "write_value v a s = Some (rc, t)" "ring t xs" "head t = head s"
      "\<forall>x\<in>set xs. pth t x = pth s x" "rc = 0 \<longrightarrow> vlu t a = Some v" by blast
    from find_pth_cong[OF w(4), of p] present(5)
    have f: "List.find (\<lambda>a. pth t a = p) xs = Some a" by simp
    from present(2,4) have pin: "p \<in> pth s ` set xs" by blast
    have "aug_set p v s = Some (rc, t) \<and> ring t (xs @ []) \<and> head t = head s
            \<and> (\<forall>a\<in>set xs. pth t a = pth s a)
            \<and> (rc = 0 \<longrightarrow>
                 ((p \<in> pth s ` set xs \<or> path = p) \<longrightarrow>
                    (\<exists>a. List.find (\<lambda>a. pth t a = p) (xs @ []) = Some a \<and> vlu t a = Some v))
                 \<and> (p \<notin> pth s ` set xs \<longrightarrow>
                    (\<forall>k\<ge>1. is_sep_at path k \<longrightarrow> take k path \<in> pth t ` set (xs @ []))))"
      using u w f pin by simp
    then show ?thesis by blast
  next
    case absent
    show ?thesis
    proof (cases "path = []")
      case True
      then have "aug_entry_make p (head s) s = None"
        by (simp add: aug_entry_make_def path[symmetric])
      with absent(1) have "aug_set p v s = None" by (simp add: aug_set_unfold)
      with absent(2) True show ?thesis by blast
    next
      case False
      from r obtain rest where x: "xs = [] @ head s # rest"
        by (cases xs) (auto simp: ring_def cyc_def)
      from aug_entry_make_ring[OF r x path False] obtain e t1 ys where
        m: "aug_entry_make p (head s) s = Some (e, t1)" "head t1 = head s"
        "\<forall>a\<in>set xs. entry_at t1 a = entry_at s a"
        "\<forall>a\<in>set ys. vlu t1 a = None \<and> (\<exists>k\<ge>1. is_sep_at path k \<and> pth t1 a = take k path)"
        "e = NULL \<longrightarrow> ring t1 (xs @ ys)"
        "e \<noteq> NULL \<longrightarrow> e \<notin> set (xs @ ys) \<and> entry_at t1 e = Some (path, None)
          \<and> ring t1 (xs @ ys @ [e])
          \<and> (\<forall>k\<ge>1. is_sep_at path k \<longrightarrow> take k path \<in> pth t1 ` set (xs @ ys))" by auto
      have p1: "\<forall>a\<in>set xs. pth t1 a = pth s a" using m(3) pth_entry by blast
      show ?thesis
      proof (cases "e = NULL")
        case True
        with absent(1) m(1) have "aug_set p v s = Some (-1, t1)" by (simp add: aug_set_unfold)
        moreover from True m(5) have "ring t1 (xs @ ys)" by simp
        ultimately have "aug_set p v s = Some (-1, t1) \<and> ring t1 (xs @ ys) \<and> head t1 = head s
            \<and> (\<forall>a\<in>set xs. pth t1 a = pth s a)
            \<and> ((-1::int) = 0 \<longrightarrow>
                 ((p \<in> pth s ` set xs \<or> path = p) \<longrightarrow>
                    (\<exists>a. List.find (\<lambda>a. pth t1 a = p) (xs @ ys) = Some a \<and> vlu t1 a = Some v))
                 \<and> (p \<notin> pth s ` set xs \<longrightarrow>
                    (\<forall>k\<ge>1. is_sep_at path k \<longrightarrow> take k path \<in> pth t1 ` set (xs @ ys))))"
          using m(2) p1 by simp
        then show ?thesis by blast
      next
        case False
        with m(6) have m6: "e \<notin> set (xs @ ys) \<and> entry_at t1 e = Some (path, None)
          \<and> ring t1 (xs @ ys @ [e])
          \<and> (\<forall>k\<ge>1. is_sep_at path k \<longrightarrow> take k path \<in> pth t1 ` set (xs @ ys))" by (rule mp)
        then have r1: "ring t1 ((xs @ ys) @ [e])" by simp
        from m6 have pe: "pth t1 e = path" using pth_vlu_of_entry by blast
        from m6 have anc: "\<forall>k\<ge>1. is_sep_at path k \<longrightarrow> take k path \<in> pth t1 ` set (xs @ ys)"
          by blast
        have ein: "e \<in> set ((xs @ ys) @ [e])" by simp
        from False absent(1) m(1) have u: "aug_set p v s = write_value v e t1"
          by (simp add: aug_set_unfold)
        from write_value_ring[OF r1 ein, of v] obtain rc t where
          w: "write_value v e t1 = Some (rc, t)" "ring t ((xs @ ys) @ [e])" "head t = head t1"
          "\<forall>x\<in>set ((xs @ ys) @ [e]). pth t x = pth t1 x" "rc = 0 \<longrightarrow> vlu t e = Some v" by blast
        have q1: "\<forall>a\<in>set xs. pth t a = pth s a" using w(4) p1 by simp
        have q2: "\<exists>a. List.find (\<lambda>a. pth t a = p) (xs @ ys @ [e]) = Some a \<and> vlu t a = Some v"
          if rc0: "rc = 0" and pp: "path = p"
        proof -
          have "\<forall>x\<in>set (xs @ ys). \<not> pth t x = p"
          proof
            fix x assume xin: "x \<in> set (xs @ ys)"
            then have pt: "pth t x = pth t1 x" using w(4) by simp
            from xin consider "x \<in> set xs" | "x \<in> set ys" by auto
            then show "\<not> pth t x = p"
            proof cases
              case 1
              with p1 pt absent(2) show ?thesis by force
            next
              case 2
              with m(4) obtain k where "is_sep_at path k" "pth t1 x = take k path" by blast
              then have "length (pth t1 x) < length path" by (simp add: is_sep_at_def)
              with pt pp show ?thesis by auto
            qed
          qed
          moreover have "pth t e = p" using w(4) pe pp by simp
          ultimately have "List.find (\<lambda>a. pth t a = p) ((xs @ ys) @ [e]) = Some e"
            by (rule find_last)
          with w(5) rc0 show ?thesis by simp
        qed
        have q3: "\<forall>k\<ge>1. is_sep_at path k \<longrightarrow> take k path \<in> pth t ` set (xs @ ys @ [e])"
        proof (intro allI impI)
          fix k assume "1 \<le> k" "is_sep_at path k"
          with anc obtain a where a: "a \<in> set (xs @ ys)" "take k path = pth t1 a" by blast
          with w(4) have "take k path = pth t a" by simp
          with a(1) show "take k path \<in> pth t ` set (xs @ ys @ [e])" by auto
        qed
        have "aug_set p v s = Some (rc, t) \<and> ring t (xs @ (ys @ [e])) \<and> head t = head s
            \<and> (\<forall>a\<in>set xs. pth t a = pth s a)
            \<and> (rc = 0 \<longrightarrow>
                 ((p \<in> pth s ` set xs \<or> path = p) \<longrightarrow>
                    (\<exists>a. List.find (\<lambda>a. pth t a = p) (xs @ (ys @ [e])) = Some a \<and> vlu t a = Some v))
                 \<and> (p \<notin> pth s ` set xs \<longrightarrow>
                    (\<forall>k\<ge>1. is_sep_at path k \<longrightarrow> take k path \<in> pth t ` set (xs @ (ys @ [e])))))"
          using u w(1,2,3) m(2) q1 q2 q3 absent(2) by simp
        then show ?thesis by blast
      qed
    qed
  qed
qed

subsection \<open>Taking a cell out of the list\<close>

definition unsplice :: "addr \<Rightarrow> store \<Rightarrow> store option" where
  "unsplice e s =
     do {
       c \<leftarrow> deref s e;
       s1 \<leftarrow> upd (e_prev c) (\<lambda>x. x\<lparr>e_next := e_next c\<rparr>) s;
       c1 \<leftarrow> deref s1 e;
       s2 \<leftarrow> upd (e_next c1) (\<lambda>x. x\<lparr>e_prev := e_prev c1\<rparr>) s1;
       Some s2
     }"

lemma aug_entry_free_unfold:
  "aug_entry_free e s = do { s2 \<leftarrow> unsplice e s; Some (free_entry e s2) }"
  by (simp add: aug_entry_free_def unsplice_def)

lemma unsplice_cells:
  assumes e0: "e \<noteq> NULL" and p0: "p \<noteq> NULL" and n0: "n \<noteq> NULL" and ep: "e \<noteq> p" and en: "e \<noteq> n"
    and de: "deref s e = Some c" and cp: "e_prev c = p" and cn: "e_next c = n"
    and dp: "deref s p = Some dp" and dn: "deref s n = Some dn"
  shows "\<exists>t. unsplice e s = Some t \<and> head t = head s \<and> brk t = brk s \<and> alloc_ok t = alloc_ok s
           \<and> (\<forall>x. deref t x =
                (if x = n then Some ((if n = p then dp\<lparr>e_next := n\<rparr> else dn)\<lparr>e_prev := p\<rparr>)
                 else if x = p then Some (dp\<lparr>e_next := n\<rparr>)
                 else deref s x))"
  using assms by (auto simp: unsplice_def upd_def deref_def)

lemma unsplice_links:
  assumes e0: "e \<noteq> NULL" and p0: "p \<noteq> NULL" and n0: "n \<noteq> NULL" and ep: "e \<noteq> p" and en: "e \<noteq> n"
    and de: "deref s e = Some c" and cp: "e_prev c = p" and cn: "e_next c = n"
    and dp: "deref s p = Some dp" and dn: "deref s n = Some dn"
  shows "\<exists>t. unsplice e s = Some t \<and> head t = head s \<and> brk t = brk s \<and> alloc_ok t = alloc_ok s
           \<and> nx t p = Some n \<and> pv t n = Some p \<and> deref t e = deref s e
           \<and> (\<forall>x. entry_at t x = entry_at s x)
           \<and> (\<forall>x. x \<noteq> p \<longrightarrow> nx t x = nx s x)
           \<and> (\<forall>x. x \<noteq> n \<longrightarrow> pv t x = pv s x)"
proof -
  from unsplice_cells[OF assms] obtain t where
    t: "unsplice e s = Some t" "head t = head s" "brk t = brk s" "alloc_ok t = alloc_ok s"
    and tx: "\<And>x. deref t x =
                (if x = n then Some ((if n = p then dp\<lparr>e_next := n\<rparr> else dn)\<lparr>e_prev := p\<rparr>)
                 else if x = p then Some (dp\<lparr>e_next := n\<rparr>)
                 else deref s x)" by blast
  have e1: "nx t p = Some n" by (simp add: nx_def tx)
  have e2: "pv t n = Some p" by (simp add: pv_def tx)
  have e3: "deref t e = deref s e" using ep en by (simp add: tx)
  have e4: "entry_at t x = entry_at s x" for x
    using dp dn by (auto simp: entry_at_def tx)
  have e5: "nx t x = nx s x" if "x \<noteq> p" for x
    using that dn by (auto simp: nx_def tx)
  have e6: "pv t x = pv s x" if "x \<noteq> n" for x
    using that dp by (auto simp: pv_def tx)
  show ?thesis
  proof (intro exI[of _ t] conjI allI impI)
    show "unsplice e s = Some t" by (rule t(1))
    show "head t = head s" by (rule t(2))
    show "brk t = brk s" by (rule t(3))
    show "alloc_ok t = alloc_ok s" by (rule t(4))
    show "nx t p = Some n" by (rule e1)
    show "pv t n = Some p" by (rule e2)
    show "deref t e = deref s e" by (rule e3)
    show "entry_at t x = entry_at s x" for x by (rule e4)
    show "nx t x = nx s x" if "x \<noteq> p" for x by (rule e5[OF that])
    show "pv t x = pv s x" if "x \<noteq> n" for x by (rule e6[OF that])
  qed
qed

text \<open>Taking the first cell of a cycle out leaves the cycle of the others.\<close>

lemma unsplice_cyc:
  assumes c: "cyc s (e # rest)" and ne: "rest \<noteq> []"
    and al: "\<forall>a\<in>set (e # rest). a \<noteq> NULL \<and> deref s a \<noteq> None"
  shows "\<exists>t. unsplice e s = Some t \<and> cyc t rest \<and> head t = head s \<and> brk t = brk s
           \<and> alloc_ok t = alloc_ok s \<and> deref t e = deref s e
           \<and> (\<forall>x. entry_at t x = entry_at s x)"
proof -
  let ?n = "hd rest" and ?p = "last rest"
  from c have d: "distinct (e # rest)" and sc: "successively (lnk s) ((e # rest) @ [e])"
    by (simp_all add: cyc_def)
  from ne obtain r1 rs where rr: "rest = r1 # rs" by (cases rest) auto
  from sc rr have l1: "lnk s e ?n" by simp
  from sc have "successively (lnk s) ([e] @ (rest @ [e]))" by simp
  then have "successively (lnk s) (rest @ [e])" unfolding successively_append_iff[of _ "[e]"] by simp
  then have l2: "lnk s ?p e" unfolding successively_append_iff using ne by simp
  have nin: "?n \<in> set rest" and pin: "?p \<in> set rest" using ne by simp_all
  from al have e0: "e \<noteq> NULL" and "deref s e \<noteq> None" by simp_all
  then obtain ce where de: "deref s e = Some ce" by blast
  from al nin have n0: "?n \<noteq> NULL" "deref s ?n \<noteq> None" by auto
  then obtain dn where dn: "deref s ?n = Some dn" by blast
  from al pin have p0: "?p \<noteq> NULL" "deref s ?p \<noteq> None" by auto
  then obtain dp where dp: "deref s ?p = Some dp" by blast
  from d nin have en: "e \<noteq> ?n" by auto
  from d pin have ep: "e \<noteq> ?p" by auto
  from l1 de have cn: "e_next ce = ?n" by (simp add: lnk_def nx_def)
  from l2 de have cp: "e_prev ce = ?p" by (simp add: lnk_def pv_def)
  from unsplice_links[OF e0 p0(1) n0(1) ep en de cp cn dp dn] obtain t where
    t: "unsplice e s = Some t" "head t = head s" "brk t = brk s" "alloc_ok t = alloc_ok s"
    "nx t ?p = Some ?n" "pv t ?n = Some ?p" "deref t e = deref s e"
    and fe: "\<And>x. entry_at t x = entry_at s x"
    and fn: "\<And>x. x \<noteq> ?p \<Longrightarrow> nx t x = nx s x"
    and fp: "\<And>x. x \<noteq> ?n \<Longrightarrow> pv t x = pv s x" by blast
  have "cyc t rest"
  proof (rule cyc_unsplice[OF c ne t(5) t(6)])
    show "\<forall>x\<in>set rest. x \<noteq> last rest \<longrightarrow> nx t x = nx s x" using fn by blast
    show "\<forall>x\<in>set rest. x \<noteq> hd rest \<longrightarrow> pv t x = pv s x" using fp by blast
  qed
  with t fe show ?thesis by blast
qed

lemma ring_cells:
  assumes "ring s xs"
  shows "\<forall>a\<in>set xs. a \<noteq> NULL \<and> deref s a \<noteq> None"
proof
  fix a assume a: "a \<in> set xs"
  from ring_brk[OF assms] have n0: "NULL \<notin> set xs" by simp
  have "a = NULL \<Longrightarrow> False" using a n0 by simp
  then have "a \<noteq> NULL" by (rule notI)
  moreover from ring_deref[OF assms a] have "deref s a \<noteq> None" by auto
  ultimately show "a \<noteq> NULL \<and> deref s a \<noteq> None" ..
qed

lemma free_entry_frame:
  "head (free_entry e s) = head s" "brk (free_entry e s) = brk s"
  "alloc_ok (free_entry e s) = alloc_ok s"
  "x \<noteq> e \<Longrightarrow> deref (free_entry e s) x = deref s x"
  by (simp_all add: free_entry_def deref_def)

lemma aug_entry_free_ring:
  assumes r: "ring s (us @ e # vs)" and ne: "us \<noteq> []"
  shows "\<exists>t. aug_entry_free e s = Some t \<and> ring t (us @ vs) \<and> head t = head s \<and> brk t = brk s
           \<and> alloc_ok t = alloc_ok s
           \<and> (\<forall>x\<in>set (us @ vs). entry_at t x = entry_at s x)"
proof -
  from r have c: "cyc s (us @ e # vs)" and h: "hd (us @ e # vs) = head s"
    and b: "\<forall>a\<in>set (us @ e # vs). a < brk s \<and> entry_at s a \<noteq> None"
    unfolding ring_def by blast+
  from c have d: "distinct (us @ e # vs)" by (simp add: cyc_def)
  from cyc_rotate[OF c] have c1: "cyc s (e # (vs @ us))" by simp
  have ne2: "vs @ us \<noteq> []" using ne by simp
  have al: "\<forall>a\<in>set (e # (vs @ us)). a \<noteq> NULL \<and> deref s a \<noteq> None"
    using ring_cells[OF r] by auto
  from unsplice_cyc[OF c1 ne2 al] obtain t1 where
    t1: "unsplice e s = Some t1" "cyc t1 (vs @ us)" "head t1 = head s" "brk t1 = brk s"
    "alloc_ok t1 = alloc_ok s" and fe: "\<And>x. entry_at t1 x = entry_at s x" by blast
  let ?t = "free_entry e t1"
  have f: "aug_entry_free e s = Some ?t" by (simp add: aug_entry_free_unfold t1(1))
  from cyc_rotate[OF t1(2) ne] have c2: "cyc t1 (us @ vs)" .
  from d have en: "e \<notin> set (us @ vs)" by auto
  have fr: "\<forall>x\<in>set (us @ vs). deref ?t x = deref t1 x"
  proof
    fix x assume "x \<in> set (us @ vs)"
    with en have "x \<noteq> e" by (intro notI) simp
    then show "deref ?t x = deref t1 x" by (rule free_entry_frame(4))
  qed
  then have "\<forall>x\<in>set (us @ vs). nx ?t x = nx t1 x \<and> pv ?t x = pv t1 x"
    by (simp add: nx_def pv_def)
  with c2 have c3: "cyc ?t (us @ vs)" by (rule cyc_frame)
  have ee: "\<forall>x\<in>set (us @ vs). entry_at ?t x = entry_at s x"
  proof
    fix x assume x: "x \<in> set (us @ vs)"
    with fr have "deref ?t x = deref t1 x" by blast
    then have "entry_at ?t x = entry_at t1 x" by (simp add: entry_at_def)
    with fe show "entry_at ?t x = entry_at s x" by simp
  qed
  have hd2: "hd (us @ vs) = head ?t" using h ne t1(3) by (simp add: free_entry_frame)
  have bb: "\<forall>a\<in>set (us @ vs). a < brk ?t \<and> entry_at ?t a \<noteq> None"
  proof
    fix a assume a: "a \<in> set (us @ vs)"
    then have "a \<in> set (us @ e # vs)" by auto
    with b have "a < brk s \<and> entry_at s a \<noteq> None" by blast
    with ee a t1(4) show "a < brk ?t \<and> entry_at ?t a \<noteq> None" by (simp add: free_entry_frame)
  qed
  from c3 hd2 bb have "ring ?t (us @ vs)" unfolding ring_def by blast
  with f ee t1 show ?thesis by (simp add: free_entry_frame)
qed

subsection \<open>The removal loop\<close>

lemma ring_nx_head:
  assumes r: "ring s (h # rest)"
  shows "nx s (head s) = Some (hd (rest @ [h]))" and "h = head s"
proof -
  from r show h: "h = head s" by (simp add: ring_def)
  from r have "cyc s (h # rest)" unfolding ring_def by (rule conjunct1)
  then have "successively (lnk s) ((h # rest) @ [h])" by (simp add: cyc_def)
  then have "lnk s h (hd (rest @ [h]))" by (cases rest) simp_all
  with h show "nx s (head s) = Some (hd (rest @ [h]))" by (simp add: lnk_def)
qed

lemma nx_deref: "nx s a = Some b \<Longrightarrow> \<exists>c. deref s a = Some c \<and> e_next c = b"
  by (auto simp: nx_def)

lemma pv_deref: "pv s a = Some b \<Longrightarrow> \<exists>c. deref s a = Some c \<and> e_prev c = b"
  by (auto simp: pv_def)

lemma rm_loop_stop:
  assumes "nx s (head s) = Some p"
  shows "rm_loop path p cnt s = Some (cnt, s)"
proof -
  from nx_deref[OF assms] obtain c where "deref s (head s) = Some c" "e_next c = p" by blast
  then show ?thesis by (subst rm_loop.simps) simp
qed

text \<open>
  One round of the loop: \<open>q\<close> is the cell under examination (\<^verbatim>\<open>p->prev\<close>), \<open>todo\<close> the
  cells still to come, and \<open>kept\<close> those already examined and left in place.
\<close>

lemma ring_succ:
  assumes r: "ring s (h # kept @ q # todo)"
  shows "lnk s q (hd (todo @ [h]))" and "hd (todo @ [h]) \<noteq> hd (kept @ [q])"
    and "nx s (hd (todo @ [h])) = Some (hd (tl (todo @ [h]) @ [hd (kept @ [q])]))"
proof -
  from r have c: "cyc s (h # kept @ q # todo)" unfolding ring_def by (rule conjunct1)
  then have d: "distinct (h # kept @ q # todo)"
    and sc: "successively (lnk s) ((h # kept) @ (q # todo @ [h]))" by (simp_all add: cyc_def)
  from sc have s1: "successively (lnk s) (q # todo @ [h])" and s0: "successively (lnk s) (h # kept)"
    and l0: "lnk s (last (h # kept)) q"
    unfolding successively_append_iff by simp_all
  from s1 show "lnk s q (hd (todo @ [h]))" by (cases todo) simp_all
  from d show "hd (todo @ [h]) \<noteq> hd (kept @ [q])" by (cases todo; cases kept) auto
  show "nx s (hd (todo @ [h])) = Some (hd (tl (todo @ [h]) @ [hd (kept @ [q])]))"
  proof (cases todo)
    case Nil
    from s0 l0 have "lnk s h (hd (kept @ [q]))" by (cases kept) simp_all
    with Nil show ?thesis by (simp add: lnk_def)
  next
    case (Cons t1 todo')
    with s1 have "lnk s t1 (hd (todo' @ [h]))" by (cases todo') simp_all
    with Cons show ?thesis by (cases todo') (simp_all add: lnk_def)
  qed
qed

lemma rm_loop_round:
  assumes r: "ring s (h # kept @ q # todo)" and p: "p = hd (todo @ [h])"
  shows "rm_loop path p cnt s =
         (if rm_match path (pth s q)
          then do { s1 \<leftarrow> aug_entry_free q s; c1 \<leftarrow> deref s1 p;
                    rm_loop path (e_next c1) (cnt + 1) s1 }
          else do { c \<leftarrow> deref s p; rm_loop path (e_next c) cnt s })"
proof -
  have r': "ring s (h # (kept @ q # todo))" using r by simp
  from ring_nx_head[OF r'] have nh: "nx s (head s) = Some (hd ((kept @ q # todo) @ [h]))" by simp
  then have nh2: "nx s (head s) = Some (hd (kept @ [q]))" by (cases kept) simp_all
  from nx_deref[OF nh2] obtain hc where hc: "deref s (head s) = Some hc" "e_next hc = hd (kept @ [q])"
    by blast
  from ring_succ(2)[OF r] p have ne: "p \<noteq> hd (kept @ [q])" by simp
  from ring_succ(1)[OF r] p have "pv s p = Some q" by (simp add: lnk_def)
  from pv_deref[OF this] obtain c where c: "deref s p = Some c" "e_prev c = q" by blast
  have "q \<in> set (h # kept @ q # todo)" by simp
  from ring_entries[OF r this] have "entry_at s q \<noteq> None" .
  from cell_of_entry[OF this] obtain v where v: "deref s q = Some v" "e_path v = Some (pth s q)"
    by blast
  show ?thesis
    by (subst rm_loop.simps) (simp add: hc ne c v)
qed

lemma rm_loop_ring:
  assumes "ring s (h # kept @ q # todo)"
  shows "\<exists>t. rm_loop path (hd (todo @ [h])) cnt s
               = Some (cnt + int (length (filter (\<lambda>a. rm_match path (pth s a)) (q # todo))), t)
           \<and> ring t (h # kept @ filter (\<lambda>a. \<not> rm_match path (pth s a)) (q # todo))
           \<and> (\<forall>a\<in>set (h # kept @ filter (\<lambda>a. \<not> rm_match path (pth s a)) (q # todo)).
                 entry_at t a = entry_at s a)
           \<and> head t = head s \<and> brk t = brk s \<and> alloc_ok t = alloc_ok s"
  using assms
proof (induction todo arbitrary: s kept q cnt)
  case Nil
  note r = Nil.prems
  have rd: "rm_loop path h cnt s =
         (if rm_match path (pth s q)
          then do { s1 \<leftarrow> aug_entry_free q s; c1 \<leftarrow> deref s1 h;
                    rm_loop path (e_next c1) (cnt + 1) s1 }
          else do { c \<leftarrow> deref s h; rm_loop path (e_next c) cnt s })"
    using rm_loop_round[OF r, of h path cnt] by simp
  from ring_nx_head(2)[of s h "kept @ [q]"] r have h: "h = head s" by simp
  show ?case
  proof (cases "rm_match path (pth s q)")
    case True
    have "ring s ((h # kept) @ q # [])" using r by simp
    from aug_entry_free_ring[OF this] obtain s1 where
      s1: "aug_entry_free q s = Some s1" "ring s1 ((h # kept) @ [])" "head s1 = head s"
      "brk s1 = brk s" "alloc_ok s1 = alloc_ok s"
      and fe: "\<forall>x\<in>set ((h # kept) @ []). entry_at s1 x = entry_at s x" by blast
    from s1(2) have r1: "ring s1 (h # kept)" by simp
    from ring_nx_head(1)[OF r1] obtain c1 where
      c1: "deref s1 (head s1) = Some c1" "e_next c1 = hd (kept @ [h])" using nx_deref by blast
    from ring_nx_head(1)[OF r1] c1 have st: "nx s1 (head s1) = Some (e_next c1)" by simp
    have "rm_loop path h cnt s = Some (cnt + 1, s1)"
      using rd True s1(1) c1(1) h s1(3) rm_loop_stop[OF st, of path "cnt + 1"] by simp
    with True r1 fe s1 show ?thesis by simp
  next
    case False
    from ring_succ(3)[OF r] have "nx s h = Some (hd (kept @ [q]))" by simp
    then obtain c where c: "deref s h = Some c" "e_next c = hd (kept @ [q])"
      using nx_deref by blast
    have st: "nx s (head s) = Some (e_next c)" using c h by (simp add: nx_def)
    have "rm_loop path h cnt s = Some (cnt, s)"
      using rd False c(1) rm_loop_stop[OF st, of path cnt] by simp
    with False r show ?thesis by simp
  qed
next
  case (Cons t1 todo)
  note r = Cons.prems
  have rd: "rm_loop path t1 cnt s =
         (if rm_match path (pth s q)
          then do { s1 \<leftarrow> aug_entry_free q s; c1 \<leftarrow> deref s1 t1;
                    rm_loop path (e_next c1) (cnt + 1) s1 }
          else do { c \<leftarrow> deref s t1; rm_loop path (e_next c) cnt s })"
    using rm_loop_round[OF r, of t1 path cnt] by simp
  show ?case
  proof (cases "rm_match path (pth s q)")
    case True
    have "ring s ((h # kept) @ q # (t1 # todo))" using r by simp
    from aug_entry_free_ring[OF this] obtain s1 where
      s1: "aug_entry_free q s = Some s1" "ring s1 ((h # kept) @ (t1 # todo))" "head s1 = head s"
      "brk s1 = brk s" "alloc_ok s1 = alloc_ok s"
      and fe: "\<forall>x\<in>set ((h # kept) @ (t1 # todo)). entry_at s1 x = entry_at s x" by blast
    from s1(2) have r1: "ring s1 (h # kept @ t1 # todo)" by simp
    from ring_succ(1)[OF r1] have "nx s1 t1 = Some (hd (todo @ [h]))" by (simp add: lnk_def)
    then obtain c1 where c1: "deref s1 t1 = Some c1" "e_next c1 = hd (todo @ [h])"
      using nx_deref by blast
    have pe: "\<forall>a\<in>set (t1 # todo). pth s1 a = pth s a"
    proof
      fix a assume "a \<in> set (t1 # todo)"
      then have "a \<in> set ((h # kept) @ (t1 # todo))" by auto
      with fe have "entry_at s1 a = entry_at s a" by blast
      then show "pth s1 a = pth s a" by (rule pth_entry)
    qed
    have f1: "filter (\<lambda>a. rm_match path (pth s1 a)) (t1 # todo)
              = filter (\<lambda>a. rm_match path (pth s a)) (t1 # todo)"
      by (rule filter_cong[OF refl]) (use pe in auto)
    have f2: "filter (\<lambda>a. \<not> rm_match path (pth s1 a)) (t1 # todo)
              = filter (\<lambda>a. \<not> rm_match path (pth s a)) (t1 # todo)"
      by (rule filter_cong[OF refl]) (use pe in auto)
    from Cons.IH[OF r1, of "cnt + 1"] obtain t where
      t: "rm_loop path (hd (todo @ [h])) (cnt + 1) s1
            = Some (cnt + 1 + int (length (filter (\<lambda>a. rm_match path (pth s1 a)) (t1 # todo))), t)"
      "ring t (h # kept @ filter (\<lambda>a. \<not> rm_match path (pth s1 a)) (t1 # todo))"
      "\<forall>a\<in>set (h # kept @ filter (\<lambda>a. \<not> rm_match path (pth s1 a)) (t1 # todo)).
          entry_at t a = entry_at s1 a"
      "head t = head s1" "brk t = brk s1" "alloc_ok t = alloc_ok s1" by blast
    let ?K = "filter (\<lambda>a. \<not> rm_match path (pth s a)) (t1 # todo)"
    have e1: "rm_loop path t1 cnt s
              = Some (cnt + int (length (filter (\<lambda>a. rm_match path (pth s a)) (q # t1 # todo))), t)"
      using rd True s1(1) c1 t(1) unfolding f1 by simp
    have e2: "ring t (h # kept @ filter (\<lambda>a. \<not> rm_match path (pth s a)) (q # t1 # todo))"
      using t(2) True unfolding f2 by simp
    have e3: "\<forall>a\<in>set (h # kept @ filter (\<lambda>a. \<not> rm_match path (pth s a)) (q # t1 # todo)).
                 entry_at t a = entry_at s a"
    proof
      fix a assume a: "a \<in> set (h # kept @ filter (\<lambda>a. \<not> rm_match path (pth s a)) (q # t1 # todo))"
      with True have a1: "a \<in> set (h # kept @ ?K)" by simp
      have "set ?K \<subseteq> set (t1 # todo)" by (rule filter_is_subset)
      with a1 have a2: "a \<in> set ((h # kept) @ (t1 # todo))" by auto
      from a1 t(3) have "entry_at t a = entry_at s1 a" unfolding f2 by blast
      moreover from fe a2 have "entry_at s1 a = entry_at s a" by (rule bspec)
      ultimately show "entry_at t a = entry_at s a" by (rule trans)
    qed
    from e1 e2 e3 t(4,5,6) s1(3,4,5) show ?thesis by simp
  next
    case False
    from ring_succ(3)[OF r] have "nx s t1 = Some (hd (todo @ [h]))" by (cases todo) simp_all
    then obtain c where c: "deref s t1 = Some c" "e_next c = hd (todo @ [h])"
      using nx_deref by blast
    have r1: "ring s (h # (kept @ [q]) @ t1 # todo)" using r by simp
    from Cons.IH[OF r1, of cnt] obtain t where
      t: "rm_loop path (hd (todo @ [h])) cnt s
            = Some (cnt + int (length (filter (\<lambda>a. rm_match path (pth s a)) (t1 # todo))), t)"
      "ring t (h # (kept @ [q]) @ filter (\<lambda>a. \<not> rm_match path (pth s a)) (t1 # todo))"
      "\<forall>a\<in>set (h # (kept @ [q]) @ filter (\<lambda>a. \<not> rm_match path (pth s a)) (t1 # todo)).
          entry_at t a = entry_at s a"
      "head t = head s" "brk t = brk s" "alloc_ok t = alloc_ok s" by blast
    have e1: "rm_loop path t1 cnt s
              = Some (cnt + int (length (filter (\<lambda>a. rm_match path (pth s a)) (q # t1 # todo))), t)"
      using rd False c t(1) by simp
    have e2: "ring t (h # kept @ filter (\<lambda>a. \<not> rm_match path (pth s a)) (q # t1 # todo))"
      using t(2) False by simp
    have e3: "\<forall>a\<in>set (h # kept @ filter (\<lambda>a. \<not> rm_match path (pth s a)) (q # t1 # todo)).
                 entry_at t a = entry_at s a"
      using t(3) False by simp
    from e1 e2 e3 t(4,5,6) show ?thesis by simp
  qed
qed

lemma aug_rm_ring:
  assumes r: "ring s (h # rest)"
  shows "\<exists>t. aug_rm path s
               = Some (int (length (filter (\<lambda>a. rm_match path (pth s a)) rest)), t)
           \<and> ring t (h # filter (\<lambda>a. \<not> rm_match path (pth s a)) rest)
           \<and> (\<forall>a\<in>set (h # filter (\<lambda>a. \<not> rm_match path (pth s a)) rest).
                 entry_at t a = entry_at s a)
           \<and> head t = head s \<and> brk t = brk s \<and> alloc_ok t = alloc_ok s"
proof (cases rest)
  case Nil
  with r have r0: "ring s [h]" by simp
  from ring_nx_head[OF r0[unfolded Nil]] have "nx s (head s) = Some h" "h = head s" by simp_all
  then obtain c where c: "deref s (head s) = Some c" "e_next c = head s" using nx_deref by blast
  then have st: "nx s (head s) = Some (e_next c)" by (simp add: nx_def)
  have "aug_rm path s = Some (0, s)"
    using c rm_loop_stop[OF st, of path 0] by (simp add: aug_rm_def)
  with Nil r show ?thesis by simp
next
  case (Cons q todo)
  with r have r1: "ring s (h # [] @ q # todo)" by simp
  from ring_nx_head[OF r] Cons have "nx s (head s) = Some q" by simp
  then obtain c where c: "deref s (head s) = Some c" "e_next c = q" using nx_deref by blast
  from ring_succ(1)[OF r1] have "nx s q = Some (hd (todo @ [h]))" by (simp add: lnk_def)
  then obtain n where n: "deref s q = Some n" "e_next n = hd (todo @ [h])" using nx_deref by blast
  have "aug_rm path s = rm_loop path (hd (todo @ [h])) 0 s"
    using c n by (simp add: aug_rm_def)
  with rm_loop_ring[OF r1, of path 0] Cons show ?thesis by simp
qed

subsection \<open>What a removal takes\<close>

text \<open>
  The entries that the description has \<^verbatim>\<open>Rm(path)\<close> remove: those whose path equals
  \<open>path\<close> or extends it past a separator, the two sentinels apart. This definition follows
  the description's words, to be compared with \<^verbatim>\<open>rm_match\<close> of the source.
\<close>

definition rm_scope :: "string \<Rightarrow> string \<Rightarrow> bool" where
  "rm_scope path q =
     ((q = path \<or> take (Suc (length path)) q = path @ [SEP])
      \<and> q \<noteq> P_SYSTEM \<and> q \<noteq> P_SYSTEM_CONFIG)"

lemma pathlen_le: "pathlen p \<le> length p"
  by (simp add: pathlen_def)

lemma prefix_or_extension:
  assumes "length b = n"
  shows "(take n q = b \<and> (char_at q n = None \<or> char_at q n = Some (CHR ''/'')))
         = (q = b \<or> take (Suc n) q = b @ [SEP])"
proof (cases "n < length q")
  case True
  then have t: "take (Suc n) q = take n q @ [q ! n]" by (rule take_Suc_conv_app_nth)
  from True assms have "q \<noteq> b" by auto
  with True t show ?thesis by (auto simp: char_at_def SEP_def)
next
  case False
  then have "take (Suc n) q = q" "take n q = q" by simp_all
  moreover from False assms have "q \<noteq> b @ [SEP]" by auto
  ultimately show ?thesis using False by (auto simp: char_at_def)
qed

lemma rm_match_scope: "rm_match path q = rm_scope (take (pathlen path) path) q"
proof -
  let ?n = "pathlen path" and ?b = "take (pathlen path) path"
  have l: "length ?b = ?n" using pathlen_le[of path] by simp
  have m: "min (length path) ?n = ?n" using pathlen_le[of path] by simp
  from prefix_or_extension[OF l, of q]
  show ?thesis
    unfolding rm_match_def rm_scope_def STREQLEN_def STREQ_def Let_def length_take m
    by auto
qed

subsection \<open>The invariant in terms of the cells\<close>

lemma ring_head: "ring s xs \<Longrightarrow> head s \<in> set xs"
proof -
  assume r: "ring s xs"
  then have "xs \<noteq> []" "hd xs = head s" by (simp_all add: ring_def cyc_def)
  then show ?thesis using hd_in_set by metis
qed


lemma ring_head_entry:
  assumes "ring s xs"
  shows "map_option fst (entry_at s (head s)) = Some (pth s (head s))"
proof -
  from ring_entries[OF assms ring_head[OF assms]] have "entry_at s (head s) \<noteq> None" .
  from entry_at_pth[OF this] show ?thesis by simp
qed


lemma store_invD:
  assumes "store_inv s"
  shows "\<exists>xs. ring s xs \<and> pth s (head s) = P_SYSTEM \<and> P_SYSTEM_CONFIG \<in> pth s ` set xs"
proof -
  from assms have c: "circular s" and s: "sentinels s" by (simp_all add: store_inv_def)
  from c obtain xs where r: "ring s xs" using circular_ring by blast
  from s have "pth s (head s) = P_SYSTEM \<and> P_SYSTEM_CONFIG \<in> pth s ` set xs"
    unfolding sentinels_def ring_head_entry[OF r] ring_paths[OF r] by simp
  with r show ?thesis by blast
qed

lemma ring_cons: "ring s xs \<Longrightarrow> \<exists>rest. xs = head s # rest"
  by (cases xs) (auto simp: ring_def cyc_def)

lemma contents_cong:
  assumes "ring t ys" and "\<forall>a\<in>set ys. entry_at t a = entry_at s a"
  shows "contents t = Some (map (\<lambda>a. (pth s a, vlu s a)) ys)"
proof -
  have "map (\<lambda>a. (pth t a, vlu t a)) ys = map (\<lambda>a. (pth s a, vlu s a)) ys"
  proof (rule map_cong[OF refl])
    fix a assume "a \<in> set ys"
    with assms(2) have "entry_at t a = entry_at s a" by blast
    then show "(pth t a, vlu t a) = (pth s a, vlu s a)" by (simp add: pth_def vlu_def)
  qed
  with ring_contents[OF assms(1)] show ?thesis by simp
qed

lemma not_scope_sentinel [simp]:
  "\<not> rm_scope b P_SYSTEM" "\<not> rm_scope b P_SYSTEM_CONFIG"
  by (simp_all add: rm_scope_def)

text \<open>\<^verbatim>\<open>aug_rm\<close> on a store that satisfies the invariant, in terms of its cells.\<close>

lemma aug_rm_inv:
  assumes r: "ring s xs" and h: "pth s (head s) = P_SYSTEM"
  shows "\<exists>t. aug_rm path s
               = Some (int (length (filter (\<lambda>a. rm_match path (pth s a)) xs)), t)
           \<and> ring t (filter (\<lambda>a. \<not> rm_match path (pth s a)) xs)
           \<and> (\<forall>a\<in>set (filter (\<lambda>a. \<not> rm_match path (pth s a)) xs).
                 entry_at t a = entry_at s a)
           \<and> head t = head s \<and> brk t = brk s \<and> alloc_ok t = alloc_ok s"
proof -
  from ring_cons[OF r] obtain rest where x: "xs = head s # rest" by blast
  have nm: "\<not> rm_match path (pth s (head s))" unfolding rm_match_scope h by simp
  from r x have "ring s (head s # rest)" by simp
  from aug_rm_ring[OF this, of path] show ?thesis unfolding x using nm by simp
qed

subsection \<open>Moving a cell before another\<close>

definition splice :: "addr \<Rightarrow> addr \<Rightarrow> store \<Rightarrow> store option" where
  "splice p a st =
     do {
       c3 \<leftarrow> deref st a;
       st3 \<leftarrow> upd (e_prev c3) (\<lambda>c. c\<lparr>e_next := p\<rparr>) st;
       c4 \<leftarrow> deref st3 a;
       st4 \<leftarrow> upd p (\<lambda>c. c\<lparr>e_prev := e_prev c4\<rparr>) st3;
       st5 \<leftarrow> upd p (\<lambda>c. c\<lparr>e_next := a\<rparr>) st4;
       st6 \<leftarrow> upd a (\<lambda>c. c\<lparr>e_prev := p\<rparr>) st5;
       Some st6
     }"

definition relink :: "addr \<Rightarrow> addr \<Rightarrow> store \<Rightarrow> store option" where
  "relink p a st = do { st2 \<leftarrow> unsplice p st; splice p a st2 }"






lemma find_first:
  "List.find P xs = Some a \<Longrightarrow> \<exists>us vs. xs = us @ a # vs \<and> P a \<and> (\<forall>u\<in>set us. \<not> P u)"
proof (induction xs)
  case Nil
  then show ?case by simp
next
  case (Cons x xs)
  show ?case
  proof (cases "P x")
    case True
    with Cons.prems have "x = a" by simp
    with True have "x # xs = [] @ a # xs \<and> P a \<and> (\<forall>u\<in>set []. \<not> P u)" by simp
    then show ?thesis by blast
  next
    case False
    with Cons.prems have "List.find P xs = Some a" by simp
    from Cons.IH[OF this] obtain us vs where "xs = us @ a # vs" "P a" "\<forall>u\<in>set us. \<not> P u" by blast
    with False have "x # xs = (x # us) @ a # vs \<and> P a \<and> (\<forall>u\<in>set (x # us). \<not> P u)" by simp
    then show ?thesis by blast
  qed
qed

lemma relink_unfold:
  "relink p s st =
     do {
       c1 \<leftarrow> deref st p;
       st1 \<leftarrow> upd (e_prev c1) (\<lambda>c. c\<lparr>e_next := e_next c1\<rparr>) st;
       c2 \<leftarrow> deref st1 p;
       st2 \<leftarrow> upd (e_next c2) (\<lambda>c. c\<lparr>e_prev := e_prev c2\<rparr>) st1;
       c3 \<leftarrow> deref st2 s;
       st3 \<leftarrow> upd (e_prev c3) (\<lambda>c. c\<lparr>e_next := p\<rparr>) st2;
       c4 \<leftarrow> deref st3 s;
       st4 \<leftarrow> upd p (\<lambda>c. c\<lparr>e_prev := e_prev c4\<rparr>) st3;
       st5 \<leftarrow> upd p (\<lambda>c. c\<lparr>e_next := s\<rparr>) st4;
       st6 \<leftarrow> upd s (\<lambda>c. c\<lparr>e_prev := p\<rparr>) st5;
       Some st6
     }"
  by (simp add: relink_def unsplice_def splice_def)

lemma strrchr_nonempty: "strrchr p c = Some i \<Longrightarrow> take (pathlen p) p \<noteq> []"
  by (cases p) (auto simp: pathlen_def)

text \<open>The ways through \<^verbatim>\<open>aug_insert\<close> on a well-formed list.\<close>

lemma aug_insert_cases:
  assumes r: "ring s xs"
  shows "aug_insert path sibling s = Some (-1, s)
         \<or> (\<exists>a us vs. xs = us @ a # vs \<and> pth s a = sibling \<and> sibling \<notin> pth s ` set us
               \<and> path \<noteq> sibling \<and> take (pathlen path) path \<noteq> []
               \<and> ((path \<notin> pth s ` set xs
                     \<and> aug_insert path sibling s
                        = do { (e, st1) \<leftarrow> aug_entry_make path a s;
                               Some (if e = NULL then -1 else 0, st1) })
                    \<or> (\<exists>p. p \<in> set xs \<and> pth s p = path
                          \<and> aug_insert path sibling s
                             = do { st6 \<leftarrow> relink p a s; Some (0, st6) })))"
proof (cases "aug_insert path sibling s = Some (-1, s)")
  case True
  then show ?thesis ..
next
  case False
  then have ne: "path \<noteq> sibling" by (auto simp: aug_insert_def STREQ_def)
  from False ne obtain pdir where pd: "strrchr path SEP = Some pdir"
    by (cases "strrchr path SEP") (auto simp: aug_insert_def STREQ_def)
  from False ne pd obtain sdir where sd: "strrchr sibling SEP = Some sdir"
    by (cases "strrchr sibling SEP") (auto simp: aug_insert_def STREQ_def)
  from False ne pd sd have eq: "pdir = sdir" "\<not> STRNEQLEN path sibling pdir"
    by (auto simp: aug_insert_def STREQ_def split: if_splits)
  from aug_entry_find_disj[OF r, of sibling]
  consider (absent) "aug_entry_find sibling s = Some NULL"
    | (present) a where "aug_entry_find sibling s = Some a" "a \<in> set xs" "a \<noteq> NULL"
        "List.find (\<lambda>a. pth s a = sibling) xs = Some a" by blast
  then show ?thesis
  proof cases
    case absent
    with ne pd sd eq have "aug_insert path sibling s = Some (-1, s)"
      by (simp add: aug_insert_def STREQ_def)
    with False show ?thesis by simp
  next
    case (present a)
    from find_first[OF present(4)] obtain us vs where
      x: "xs = us @ a # vs" "pth s a = sibling" "\<forall>u\<in>set us. pth s u \<noteq> sibling" by blast
    from x(3) have nu: "sibling \<notin> pth s ` set us" by auto
    note pn = strrchr_nonempty[OF pd]
    from aug_entry_find_disj[OF r, of path]
    consider (new) "aug_entry_find path s = Some NULL" "path \<notin> pth s ` set xs"
      | (old) p where "aug_entry_find path s = Some p" "p \<in> set xs" "p \<noteq> NULL" "pth s p = path"
      by blast
    then show ?thesis
    proof cases
      case new
      have "aug_insert path sibling s
            = do { (e, st1) \<leftarrow> aug_entry_make path a s; Some (if e = NULL then -1 else 0, st1) }"
        using ne pd sd eq present(1,3) new(1) by (simp add: aug_insert_def STREQ_def)
      with x(1,2) nu ne pn new(2) show ?thesis by blast
    next
      case (old p)
      have "aug_insert path sibling s = do { st6 \<leftarrow> relink p a s; Some (0, st6) }"
        using ne pd sd eq present(1,3) old(1,3)
        by (simp add: aug_insert_def STREQ_def relink_unfold)
      with x(1,2) nu ne pn old(2,4) show ?thesis by blast
    qed
  qed
qed


text \<open>
  A successful \<^verbatim>\<open>aug_insert\<close> of a path that had no entry: the new cell stands
  immediately before the first cell of the sibling, unless that cell is \<^verbatim>\<open>head\<close>; the
  ancestors that were missing stand at the end.
\<close>

lemma aug_insert_new:
  assumes r: "ring s xs" and np: "path \<notin> pth s ` set xs"
    and ai: "aug_insert path sibling s = Some (0, t)"
  shows "\<exists>a us vs e ys. xs = us @ a # vs \<and> pth s a = sibling \<and> sibling \<notin> pth s ` set us
           \<and> pth t e = take (pathlen path) path
           \<and> (\<forall>x\<in>set xs. pth t x = pth s x)
           \<and> (\<forall>x\<in>set ys. \<exists>k\<ge>1. is_sep_at (take (pathlen path) path) k
                    \<and> pth t x = take k (take (pathlen path) path))
           \<and> (us = [] \<longrightarrow> ring t (xs @ ys @ [e]))
           \<and> (us \<noteq> [] \<longrightarrow> ring t (us @ e # a # vs @ ys))"
proof -
  have "\<exists>a us vs. xs = us @ a # vs \<and> pth s a = sibling \<and> sibling \<notin> pth s ` set us
          \<and> take (pathlen path) path \<noteq> []
          \<and> aug_insert path sibling s
           = do { (e, st1) \<leftarrow> aug_entry_make path a s; Some (if e = NULL then -1 else 0, st1) }"
    using aug_insert_cases[OF r, of path sibling]
  proof (elim disjE exE conjE)
    assume "aug_insert path sibling s = Some (-1, s)"
    with ai show ?thesis by simp
  next
    fix a us vs
    assume "xs = us @ a # vs" "pth s a = sibling" "sibling \<notin> pth s ` set us"
      "take (pathlen path) path \<noteq> []"
      "aug_insert path sibling s
           = do { (e, st1) \<leftarrow> aug_entry_make path a s; Some (if e = NULL then -1 else 0, st1) }"
    then show ?thesis by blast
  next
    fix p
    assume "p \<in> set xs" "pth s p = path"
    then have "path \<in> pth s ` set xs" by blast
    with np show ?thesis by simp
  qed
  then obtain a us vs where x: "xs = us @ a # vs" "pth s a = sibling" "sibling \<notin> pth s ` set us"
    and pn: "take (pathlen path) path \<noteq> []"
    and u: "aug_insert path sibling s
           = do { (e, st1) \<leftarrow> aug_entry_make path a s; Some (if e = NULL then -1 else 0, st1) }"
    by blast
  from aug_entry_make_ring[OF r x(1) refl pn] obtain e t' ys where
    m: "aug_entry_make path a s = Some (e, t')"
    "\<forall>x\<in>set xs. entry_at t' x = entry_at s x"
    "\<forall>x\<in>set ys. vlu t' x = None \<and> (\<exists>k\<ge>1. is_sep_at (take (pathlen path) path) k
        \<and> pth t' x = take k (take (pathlen path) path))"
    and e1: "e \<noteq> NULL \<longrightarrow> e \<notin> set (xs @ ys) \<and> entry_at t' e = Some (take (pathlen path) path, None)
                 \<and> (us = [] \<longrightarrow> ring t' (xs @ ys @ [e]))
                 \<and> (us \<noteq> [] \<longrightarrow> ring t' (us @ e # a # vs @ ys))" by blast
  from ai have "Some (if e = NULL then -1 else 0, t') = Some (0::int, t)" unfolding u m(1) by simp
  then have en: "e \<noteq> NULL" and tt: "t' = t" by (auto split: if_splits)
  from e1 en have ee: "entry_at t' e = Some (take (pathlen path) path, None)"
    and r1: "us = [] \<longrightarrow> ring t' (xs @ ys @ [e])"
    and r2: "us \<noteq> [] \<longrightarrow> ring t' (us @ e # a # vs @ ys)" by blast+
  from ee have pe: "pth t' e = take (pathlen path) path" by (simp add: pth_def)
  have px: "\<forall>x\<in>set xs. pth t' x = pth s x"
  proof
    fix y assume "y \<in> set xs"
    with m(2) have "entry_at t' y = entry_at s y" by blast
    then show "pth t' y = pth s y" by (rule pth_entry)
  qed
  from m(3) have py: "\<forall>x\<in>set ys. \<exists>k\<ge>1. is_sep_at (take (pathlen path) path) k
                    \<and> pth t' x = take k (take (pathlen path) path)" by blast
  from x pe px py r1 r2 show ?thesis unfolding tt by blast
qed

subsection \<open>What each operation keeps\<close>












subsection \<open>The providers\<close>



subsection \<open>The first initialisation\<close>





subsection \<open>The invariant along the calls\<close>












section \<open>Properties\<close>

lemma after_set_eq:
  "map_option fst (aug_set p v s) = Some r \<Longrightarrow> aug_set p v s = Some (r, after_set p v s)"
  by (cases "aug_set p v s") (auto simp: after_set_def)

lemma after_rm_eq:
  "map_option fst (aug_rm p s) = Some n \<Longrightarrow> aug_rm p s = Some (n, after_rm p s)"
  by (cases "aug_rm p s") (auto simp: after_rm_def)

lemma after_insert_eq:
  "map_option fst (aug_insert p sib s) = Some r
   \<Longrightarrow> aug_insert p sib s = Some (r, after_insert p sib s)"
  by (cases "aug_insert p sib s") (auto simp: after_insert_def)

lemma valid_path_take: "valid_path p \<Longrightarrow> take (pathlen p) p = p"
  by (simp add: valid_path_def)








text \<open>
  C4, as stated, fails in its example: on the store built by setting \<^verbatim>\<open>/a\<close>,
  \<^verbatim>\<open>/a/b\<close> and \<^verbatim>\<open>/a/bc\<close> after initialisation, \<^verbatim>\<open>aug_rm("/a")\<close>
  returns 3 and leaves only the two sentinels: \<^verbatim>\<open>/a/bc\<close> extends \<^verbatim>\<open>/a\<close> past a
  separator as \<^verbatim>\<open>/a/b\<close> does, and is removed with it. It is \<^verbatim>\<open>aug_rm("/a/b")\<close>
  that removes \<^verbatim>\<open>/a/b\<close> and leaves \<^verbatim>\<open>/a/bc\<close>.
\<close>

theorem rm_takes_every_descendant:
  "paths store_a_ab_abc = Some [''/system'', ''/system/config'', ''/a'', ''/a/b'', ''/a/bc'']
   \<and> map_option fst (aug_rm ''/a'' store_a_ab_abc) = Some 3
   \<and> paths (after_rm ''/a'' store_a_ab_abc) = Some [''/system'', ''/system/config'']
   \<and> map_option fst (aug_rm ''/a/b'' store_a_ab_abc) = Some 1
   \<and> paths (after_rm ''/a/b'' store_a_ab_abc)
       = Some [''/system'', ''/system/config'', ''/a'', ''/a/bc'']"
  by code_simp

text \<open>
  C4 as amended: on every store that satisfies the invariant, \<^verbatim>\<open>aug_rm\<close> returns, and
  the entries it leaves are those of the store, in their order and with their values, whose
  path is not in the scope of the removal; the scope is the paths that equal the given path
  (less a trailing separator) or extend it past a separator, the two sentinels apart. The
  count returned is the number of entries in the scope. So on a store that holds
  \<^verbatim>\<open>/a\<close>, \<^verbatim>\<open>/a/b\<close> and \<^verbatim>\<open>/a/bc\<close>, \<^verbatim>\<open>aug_rm("/a")\<close> removes all
  three, and \<^verbatim>\<open>aug_rm("/a/b")\<close> removes \<^verbatim>\<open>/a/b\<close> alone.
\<close>

theorem rm_removes_subtree:
  assumes "store_inv s" and "contents s = Some es"
  shows "\<exists>t. aug_rm path s
               = Some (int (length (filter (\<lambda>e. rm_scope (take (pathlen path) path) (fst e)) es)), t)
           \<and> contents t
               = Some (filter (\<lambda>e. \<not> rm_scope (take (pathlen path) path) (fst e)) es)"
proof -
  from store_invD[OF assms(1)] obtain xs where r: "ring s xs" and h: "pth s (head s) = P_SYSTEM"
    by blast
  let ?f = "\<lambda>a. (pth s a, vlu s a)"
  let ?b = "take (pathlen path) path"
  from ring_contents[OF r] assms(2) have es: "es = map ?f xs" by simp
  from aug_rm_inv[OF r h, of path] obtain t where
    t: "aug_rm path s = Some (int (length (filter (\<lambda>a. rm_match path (pth s a)) xs)), t)"
    and rt: "ring t (filter (\<lambda>a. \<not> rm_match path (pth s a)) xs)"
    and fe: "\<forall>a\<in>set (filter (\<lambda>a. \<not> rm_match path (pth s a)) xs). entry_at t a = entry_at s a"
    by blast
  have f1: "filter (\<lambda>e. rm_scope ?b (fst e)) es = map ?f (filter (\<lambda>a. rm_match path (pth s a)) xs)"
    unfolding es filter_map rm_match_scope by (simp add: comp_def)
  have f2: "filter (\<lambda>e. \<not> rm_scope ?b (fst e)) es
            = map ?f (filter (\<lambda>a. \<not> rm_match path (pth s a)) xs)"
    unfolding es filter_map rm_match_scope by (simp add: comp_def)
  from contents_cong[OF rt fe] have "contents t = Some (filter (\<lambda>e. \<not> rm_scope ?b (fst e)) es)"
    unfolding f2 .
  moreover from t have "aug_rm path s
      = Some (int (length (filter (\<lambda>e. rm_scope ?b (fst e)) es)), t)"
    unfolding f1 by simp
  ultimately show ?thesis by blast
qed

theorem rm_removes_subtree_witness:
  "store_inv store_a_ab_abc
   \<and> contents store_a_ab_abc
       = Some [(''/system'', None), (''/system/config'', None), (''/a'', Some ''1''),
               (''/a/b'', Some ''2''), (''/a/bc'', Some ''3'')]
   \<and> aug_rm ''/a'' store_a_ab_abc = Some (3, after_rm ''/a'' store_a_ab_abc)
   \<and> contents (after_rm ''/a'' store_a_ab_abc)
       = Some [(''/system'', None), (''/system/config'', None)]
   \<and> aug_rm ''/a/b'' store_a_ab_abc = Some (1, after_rm ''/a/b'' store_a_ab_abc)
   \<and> contents (after_rm ''/a/b'' store_a_ab_abc)
       = Some [(''/system'', None), (''/system/config'', None), (''/a'', Some ''1''),
               (''/a/bc'', Some ''3'')]"
proof -
  have i: "store_inv store_a_ab_abc" by code_simp
  have c: "contents store_a_ab_abc
       = Some [(''/system'', None), (''/system/config'', None), (''/a'', Some ''1''),
               (''/a/b'', Some ''2''), (''/a/bc'', Some ''3'')]" by code_simp
  from rm_removes_subtree[OF i c, of "''/a''"] obtain t where
    t: "aug_rm ''/a'' store_a_ab_abc = Some (3, t)"
       "contents t = Some [(''/system'', None), (''/system/config'', None)]"
    by (auto simp: rm_scope_def pathlen_def SEP_def P_SYSTEM_def P_SYSTEM_CONFIG_def)
  from rm_removes_subtree[OF i c, of "''/a/b''"] obtain u where
    u: "aug_rm ''/a/b'' store_a_ab_abc = Some (1, u)"
       "contents u = Some [(''/system'', None), (''/system/config'', None), (''/a'', Some ''1''),
               (''/a/bc'', Some ''3'')]"
    by (auto simp: rm_scope_def pathlen_def SEP_def P_SYSTEM_def P_SYSTEM_CONFIG_def)
  from t(1) have t': "after_rm ''/a'' store_a_ab_abc = t" by (simp add: after_rm_def)
  from u(1) have u': "after_rm ''/a/b'' store_a_ab_abc = u" by (simp add: after_rm_def)
  from i c t u show ?thesis unfolding t' u' by simp
qed

text \<open>
  C5: on a well-formed store, when \<^verbatim>\<open>aug_set\<close> of a valid absolute path that had no
  entry returns 0, every strict ancestor of the path (the path cut at one of its inner
  separators) has an entry afterwards; so after \<^verbatim>\<open>aug_set("/a/b/c", "x")\<close> both
  \<^verbatim>\<open>/a\<close> and \<^verbatim>\<open>/a/b\<close> exist.
\<close>

theorem set_materializes_ancestors:
  assumes "circular s" and "valid_path p" and "aug_exists p s = Some 0"
    and "aug_set p v s = Some (0, t)" and "0 < k" and "k < length p" and "p ! k = SEP"
  shows "aug_exists (take k p) t = Some 1"
proof -
  from assms(1) obtain xs where r: "ring s xs" using circular_ring by blast
  from assms(3) have np: "p \<notin> pth s ` set xs"
    unfolding aug_exists_ring[OF r] by (simp split: if_splits)
  from valid_path_take[OF assms(2)] have path: "p = take (pathlen p) p" by simp
  from aug_set_ring[OF r path, of v] assms(4) obtain zs where
    rt: "ring t (xs @ zs)"
    and f: "(0::int) = 0 \<longrightarrow> ((p \<in> pth s ` set xs \<or> p = p) \<longrightarrow>
                    (\<exists>a. List.find (\<lambda>a. pth t a = p) (xs @ zs) = Some a \<and> vlu t a = Some v))
                 \<and> (p \<notin> pth s ` set xs \<longrightarrow>
                    (\<forall>k\<ge>1. is_sep_at p k \<longrightarrow> take k p \<in> pth t ` set (xs @ zs)))"
    by auto
  from f np have "\<forall>k\<ge>1. is_sep_at p k \<longrightarrow> take k p \<in> pth t ` set (xs @ zs)" by simp
  moreover from assms(5,6,7) have "1 \<le> k" "is_sep_at p k" by (simp_all add: is_sep_at_def)
  ultimately have "take k p \<in> pth t ` set (xs @ zs)" by blast
  then show ?thesis unfolding aug_exists_ring[OF rt] by simp
qed

theorem set_materializes_ancestors_witness:
  "circular after_init \<and> valid_path ''/a/b/c'' \<and> aug_exists ''/a/b/c'' after_init = Some 0
   \<and> aug_exists ''/a'' after_init = Some 0 \<and> aug_exists ''/a/b'' after_init = Some 0
   \<and> aug_set ''/a/b/c'' ''x'' after_init = Some (0, after_set ''/a/b/c'' ''x'' after_init)
   \<and> aug_exists ''/a'' (after_set ''/a/b/c'' ''x'' after_init) = Some 1
   \<and> aug_exists ''/a/b'' (after_set ''/a/b/c'' ''x'' after_init) = Some 1"
proof -
  have c: "circular after_init" by code_simp
  have v: "valid_path ''/a/b/c''" by code_simp
  have e: "aug_exists ''/a/b/c'' after_init = Some 0" by code_simp
  have e2: "aug_exists ''/a'' after_init = Some 0" "aug_exists ''/a/b'' after_init = Some 0"
    by code_simp+
  have "map_option fst (aug_set ''/a/b/c'' ''x'' after_init) = Some 0" by code_simp
  then have s: "aug_set ''/a/b/c'' ''x'' after_init = Some (0, after_set ''/a/b/c'' ''x'' after_init)"
    by (rule after_set_eq)
  have "aug_exists (take 2 ''/a/b/c'') (after_set ''/a/b/c'' ''x'' after_init) = Some 1"
    by (rule set_materializes_ancestors[OF c v e s]) (simp_all add: SEP_def)
  moreover have "aug_exists (take 4 ''/a/b/c'') (after_set ''/a/b/c'' ''x'' after_init) = Some 1"
    by (rule set_materializes_ancestors[OF c v e s]) (simp_all add: SEP_def)
  ultimately show ?thesis using c v e e2 s by simp
qed

text \<open>
  C6: when a precondition of \<^verbatim>\<open>aug_insert\<close> is violated (the two paths are equal, one
  of them has no separator, the parts before the last separator differ, or no entry for the
  sibling exists) the call returns -1 and the store is the one it was given: no cell, link,
  value or allocator state has changed.
\<close>

theorem insert_rejects_without_change:
  assumes "path = sibling \<or> SEP \<notin> set path \<or> SEP \<notin> set sibling
           \<or> parent_prefix path \<noteq> parent_prefix sibling
           \<or> aug_exists sibling s = Some 0"
  shows "aug_insert path sibling s = Some (-1, s)"
proof (cases "path = sibling")
  case True
  then show ?thesis by (simp add: aug_insert_def STREQ_def)
next
  case False
  note ne = this
  show ?thesis
  proof (cases "strrchr path SEP")
    case None
    with ne show ?thesis by (simp add: aug_insert_def STREQ_def)
  next
    case (Some i)
    note pi = this
    show ?thesis
    proof (cases "strrchr sibling SEP")
      case None
      with ne pi show ?thesis by (simp add: aug_insert_def STREQ_def)
    next
      case (Some j)
      note sj = this
      show ?thesis
      proof (cases "i \<noteq> j \<or> take i path \<noteq> take i sibling")
        case True
        with ne pi sj show ?thesis by (auto simp: aug_insert_def STREQ_def STRNEQLEN_def)
      next
        case False
        then have ij: "j = i" and tk: "take i path = take i sibling" by simp_all
        from pi sj ij tk have "parent_prefix path = parent_prefix sibling"
          by (simp add: parent_prefix_def)
        moreover from pi have "SEP \<in> set path" using strrchr_None[of path SEP] by simp
        moreover from sj have "SEP \<in> set sibling" using strrchr_None[of sibling SEP] by simp
        ultimately have "aug_exists sibling s = Some 0" using assms ne by blast
        then have "aug_entry_find sibling s = Some NULL"
          by (auto simp: aug_exists_def split: bind_splits if_splits)
        with ne pi sj ij tk show ?thesis
          by (simp add: aug_insert_def STREQ_def STRNEQLEN_def)
      qed
    qed
  qed
qed

theorem insert_rejects_without_change_witness:
  "parent_prefix ''/a/x'' \<noteq> parent_prefix ''/b/y''
   \<and> aug_insert ''/a/x'' ''/b/y'' after_init = Some (-1, after_init)
   \<and> aug_insert ''/a/x'' ''/a/x'' after_init = Some (-1, after_init)
   \<and> SEP \<notin> set ''x''
   \<and> aug_insert ''x'' ''/a/y'' after_init = Some (-1, after_init)
   \<and> aug_exists ''/a/y'' after_init = Some 0
   \<and> aug_insert ''/a/x'' ''/a/y'' after_init = Some (-1, after_init)"
proof -
  have h1: "parent_prefix ''/a/x'' \<noteq> parent_prefix ''/b/y''"
    by (simp add: parent_prefix_def SEP_def)
  have h2: "SEP \<notin> set ''x''" by (simp add: SEP_def)
  have h3: "aug_exists ''/a/y'' after_init = Some 0" by code_simp
  from h1 have "aug_insert ''/a/x'' ''/b/y'' after_init = Some (-1, after_init)"
    by (intro insert_rejects_without_change) simp
  moreover have "aug_insert ''/a/x'' ''/a/x'' after_init = Some (-1, after_init)"
    by (intro insert_rejects_without_change) simp
  moreover from h2 have "aug_insert ''x'' ''/a/y'' after_init = Some (-1, after_init)"
    by (intro insert_rejects_without_change) simp
  moreover from h3 have "aug_insert ''/a/x'' ''/a/y'' after_init = Some (-1, after_init)"
    by (intro insert_rejects_without_change) simp
  ultimately show ?thesis using h1 h2 h3 by simp
qed

text \<open>
  C7: on a store that satisfies the invariant and has no entry \<^verbatim>\<open>/a/x\<close>, after
  \<^verbatim>\<open>aug_insert("/a/x", "/a/y")\<close> has returned 0 the list is the list of before with
  \<^verbatim>\<open>/a/x\<close> put immediately before the (first) entry \<^verbatim>\<open>/a/y\<close>, and with
  \<^verbatim>\<open>/a\<close> at the end if it was missing. So \<^verbatim>\<open>aug_ls("/a")\<close> lists the children
  of before with \<^verbatim>\<open>/a/x\<close> immediately before \<^verbatim>\<open>/a/y\<close>.
\<close>

theorem insert_places_before_sibling:
  assumes "store_inv s" and "paths s = Some ps" and "''/a/x'' \<notin> set ps"
    and "aug_insert ''/a/x'' ''/a/y'' s = Some (0, t)"
  shows "\<exists>us vs zs. ps = us @ ''/a/y'' # vs \<and> ''/a/y'' \<notin> set us
           \<and> paths t = Some (us @ ''/a/x'' # ''/a/y'' # vs @ zs) \<and> set zs \<subseteq> {''/a''}
           \<and> aug_ls ''/a'' False t
               = Some ((int (length (filter (ls_child ''/a'') us @ ''/a/x'' # ''/a/y''
                                      # filter (ls_child ''/a'') vs)), None), t)
           \<and> (alloc_ok t = [] \<or> hd (alloc_ok t) \<longrightarrow>
                map_option fst (aug_ls ''/a'' True t)
                = Some (int (length (filter (ls_child ''/a'') us @ ''/a/x'' # ''/a/y''
                                      # filter (ls_child ''/a'') vs)),
                        Some (map Some (filter (ls_child ''/a'') us @ ''/a/x'' # ''/a/y''
                                      # filter (ls_child ''/a'') vs))))"
proof -
  from store_invD[OF assms(1)] obtain xs where r: "ring s xs" and h: "pth s (head s) = P_SYSTEM"
    by blast
  from ring_paths[OF r] assms(2) have ps: "ps = map (pth s) xs" by simp
  from assms(3) have np: "''/a/x'' \<notin> pth s ` set xs" unfolding ps by simp
  have pl: "take (pathlen ''/a/x'') ''/a/x'' = ''/a/x''" by (simp add: pathlen_def SEP_def)
  from aug_insert_new[OF r np assms(4)] obtain a us vs e ys where
    x: "xs = us @ a # vs" "pth s a = ''/a/y''" "''/a/y'' \<notin> pth s ` set us"
    and pe: "pth t e = ''/a/x''"
    and px: "\<forall>x\<in>set xs. pth t x = pth s x"
    and py: "\<forall>x\<in>set ys. \<exists>k\<ge>1. is_sep_at ''/a/x'' k \<and> pth t x = take k ''/a/x''"
    and r2: "us \<noteq> [] \<longrightarrow> ring t (us @ e # a # vs @ ys)"
    unfolding pl by blast
  have un: "us \<noteq> []"
  proof
    assume "us = []"
    with x(1) r have "a = head s" by (simp add: ring_def)
    with x(2) h show False by (simp add: P_SYSTEM_def)
  qed
  with r2 have rt: "ring t (us @ e # a # vs @ ys)" by (rule mp)
  let ?us = "map (pth s) us" and ?vs = "map (pth s) vs" and ?zs = "map (pth t) ys"
  have m1: "map (pth t) us = ?us" using px x(1) by simp
  have m2: "map (pth t) vs = ?vs" using px x(1) by simp
  have m3: "pth t a = ''/a/y''" using px x(1,2) by simp
  have pt: "map (pth t) (us @ e # a # vs @ ys) = ?us @ ''/a/x'' # ''/a/y'' # ?vs @ ?zs"
    by (simp add: m1 m2 m3 pe)
  have e1: "ps = ?us @ ''/a/y'' # ?vs" unfolding ps x(1) using x(2) by simp
  have e2: "''/a/y'' \<notin> set ?us" using x(3) by simp
  have e3: "paths t = Some (?us @ ''/a/x'' # ''/a/y'' # ?vs @ ?zs)"
    unfolding ring_paths[OF rt] pt ..
  have e4: "set ?zs \<subseteq> {''/a''}"
  proof
    fix z assume "z \<in> set ?zs"
    then obtain y where "y \<in> set ys" "z = pth t y" by auto
    with py obtain k where k: "1 \<le> k" "is_sep_at ''/a/x'' k" "z = take k ''/a/x''" by blast
    from k(2) have "k < 4" by (simp add: is_sep_at_def)
    with k(1) have "k = 1 \<or> k = 2 \<or> k = 3" by arith
    with k(2) have "k = 2" by (auto simp: is_sep_at_def SEP_def)
    with k(3) show "z \<in> {''/a''}" by simp
  qed
  let ?cs = "filter (ls_child ''/a'') ?us @ ''/a/x'' # ''/a/y'' # filter (ls_child ''/a'') ?vs"
  have c1: "ls_child ''/a'' ''/a/x''" "ls_child ''/a'' ''/a/y''"
    by (simp_all add: ls_child_def pathprefix_def pathlen_def SEP_def)
  have "\<forall>z\<in>set ?zs. \<not> ls_child ''/a'' z" using e4 ls_examples(3) by auto
  then have fz: "filter (ls_child ''/a'') ?zs = []" unfolding filter_empty_conv .
  have fs: "?cs = filter (ls_child ''/a'') (map (pth t) (us @ e # a # vs @ ys))"
    unfolding pt using c1 fz by simp
  note ls = aug_ls_ring[OF rt fs]
  have e5: "aug_ls ''/a'' False t = Some ((int (length ?cs), None), t)"
    unfolding ls by simp
  have e6: "alloc_ok t = [] \<or> hd (alloc_ok t) \<longrightarrow>
              map_option fst (aug_ls ''/a'' True t) = Some (int (length ?cs), Some (map Some ?cs))"
    unfolding ls by simp
  from e1 e2 e3 e4 e5 e6 show ?thesis by blast
qed

theorem insert_places_before_sibling_witness:
  "store_inv store_a_y_z
   \<and> paths store_a_y_z = Some [''/system'', ''/system/config'', ''/a'', ''/a/y'', ''/a/z'']
   \<and> aug_insert ''/a/x'' ''/a/y'' store_a_y_z
       = Some (0, after_insert ''/a/x'' ''/a/y'' store_a_y_z)
   \<and> paths (after_insert ''/a/x'' ''/a/y'' store_a_y_z)
       = Some [''/system'', ''/system/config'', ''/a'', ''/a/x'', ''/a/y'', ''/a/z'']
   \<and> alloc_ok (after_insert ''/a/x'' ''/a/y'' store_a_y_z) = []
   \<and> map_option fst (aug_ls ''/a'' True (after_insert ''/a/x'' ''/a/y'' store_a_y_z))
       = Some (3, Some [Some ''/a/x'', Some ''/a/y'', Some ''/a/z''])"
proof -
  let ?t = "after_insert ''/a/x'' ''/a/y'' store_a_y_z"
  have i: "store_inv store_a_y_z" by code_simp
  have p: "paths store_a_y_z = Some [''/system'', ''/system/config'', ''/a'', ''/a/y'', ''/a/z'']"
    by code_simp
  have n: "''/a/x'' \<notin> set [''/system'', ''/system/config'', ''/a'', ''/a/y'', ''/a/z'']" by simp
  have "map_option fst (aug_insert ''/a/x'' ''/a/y'' store_a_y_z) = Some 0" by code_simp
  then have a: "aug_insert ''/a/x'' ''/a/y'' store_a_y_z = Some (0, ?t)" by (rule after_insert_eq)
  have o: "alloc_ok ?t = []" by code_simp
  from insert_places_before_sibling[OF i p n a] obtain us vs zs where
    u: "[''/system'', ''/system/config'', ''/a'', ''/a/y'', ''/a/z''] = us @ ''/a/y'' # vs"
    "''/a/y'' \<notin> set us"
    "paths ?t = Some (us @ ''/a/x'' # ''/a/y'' # vs @ zs)"
    "alloc_ok ?t = [] \<or> hd (alloc_ok ?t) \<longrightarrow>
                map_option fst (aug_ls ''/a'' True ?t)
                = Some (int (length (filter (ls_child ''/a'') us @ ''/a/x'' # ''/a/y''
                                      # filter (ls_child ''/a'') vs)),
                        Some (map Some (filter (ls_child ''/a'') us @ ''/a/x'' # ''/a/y''
                                      # filter (ls_child ''/a'') vs)))"
    by blast
  have pt: "paths ?t = Some [''/system'', ''/system/config'', ''/a'', ''/a/x'', ''/a/y'', ''/a/z'']"
    by code_simp
  from u(3) pt have "us @ ''/a/x'' # ''/a/y'' # vs @ zs
      = [''/system'', ''/system/config'', ''/a''] @ ''/a/x'' # ''/a/y'' # [''/a/z'']" by simp
  with u(1) have uv: "us = [''/system'', ''/system/config'', ''/a'']" "vs = [''/a/z'']"
    by (auto simp: append_eq_Cons_conv Cons_eq_append_conv)
  from u(4) o have "map_option fst (aug_ls ''/a'' True ?t)
       = Some (3, Some [Some ''/a/x'', Some ''/a/y'', Some ''/a/z''])"
    unfolding uv by (simp add: ls_child_def pathprefix_def pathlen_def SEP_def)
  with i p a pt o show ?thesis by simp
qed

text \<open>
  C8, as stated, fails: on the store built by setting \<^verbatim>\<open>/a\<close>, \<^verbatim>\<open>/a/b\<close>,
  \<^verbatim>\<open>/a/c\<close> and \<^verbatim>\<open>/a/b/c\<close> after initialisation, \<^verbatim>\<open>aug_match\<close> with the
  pattern \<^verbatim>\<open>/a/*\<close> counts three matches, not two, and \<^verbatim>\<open>/a/b/c\<close> is one of
  them: \<^verbatim>\<open>fnmatch\<close> is called without \<^verbatim>\<open>FNM_PATHNAME\<close>, so \<^verbatim>\<open>*\<close> runs
  across separators.
\<close>

theorem match_star_crosses_separator:
  "paths store_a_b_c_bc
     = Some [''/system'', ''/system/config'', ''/a'', ''/a/b'', ''/a/c'', ''/a/b/c'']
   \<and> aug_match ''/a/*'' [None, None, None, None] 4 store_a_b_c_bc
     = Some (3, [Some ''/a/b'', Some ''/a/c'', Some ''/a/b/c'', None])"
  by code_simp

text \<open>
  C8 as amended: on every well-formed store whose entries are the sentinels and
  \<^verbatim>\<open>/a\<close>, \<^verbatim>\<open>/a/b\<close>, \<^verbatim>\<open>/a/c\<close>, \<^verbatim>\<open>/a/b/c\<close> (in any list order),
  \<^verbatim>\<open>aug_match\<close> with the pattern \<^verbatim>\<open>/a/*\<close> returns 3: it matches
  \<^verbatim>\<open>/a/b\<close>, \<^verbatim>\<open>/a/c\<close> and \<^verbatim>\<open>/a/b/c\<close>, and not \<^verbatim>\<open>/a\<close>. With capacity 0
  it returns that count and leaves the array as it was; with a capacity within the array it
  writes the matching paths in list order into the first slots and leaves the others.
\<close>

theorem match_star_counts_descendants:
  assumes "circular s" and "paths s = Some ps"
    and "mset ps = mset [''/system'', ''/system/config'', ''/a'', ''/a/b'', ''/a/c'', ''/a/b/c'']"
  shows "aug_match ''/a/*'' m 0 s = Some (3, m)
         \<and> (msize \<le> int (length m) \<longrightarrow>
              (\<exists>m'. aug_match ''/a/*'' m msize s = Some (3, m') \<and> length m' = length m
                 \<and> (\<forall>i<length m. m' ! i =
                       (if int i < msize \<and> i < 3
                        then Some (filter (\<lambda>q. q \<in> {''/a/b'', ''/a/c'', ''/a/b/c''}) ps ! i)
                        else m ! i))))"
proof -
  from assms(1,2) obtain xs where r: "ring s xs" and p: "map (pth s) xs = ps"
    by (rule circular_paths)
  note f = filter_six[OF assms(3)]
  have am: "aug_match ''/a/*'' m k s = match_list ''/a/*'' k 0 m ps" for k m
    unfolding aug_match_ring[OF r] p ..
  have "aug_match ''/a/*'' m 0 s = Some (3, m)"
    unfolding am using match_list_nocap[of 0 0 "''/a/*''" m ps] f(2) by simp
  moreover have "\<exists>m'. aug_match ''/a/*'' m msize s = Some (3, m') \<and> length m' = length m
                 \<and> (\<forall>i<length m. m' ! i =
                       (if int i < msize \<and> i < 3
                        then Some (filter (\<lambda>q. q \<in> {''/a/b'', ''/a/c'', ''/a/b/c''}) ps ! i)
                        else m ! i))" if "msize \<le> int (length m)"
  proof -
    define fs where "fs = filter (matches ''/a/*'') ps"
    have l: "length fs = 3" using f(2) by (simp only: fs_def)
    have e: "fs = filter (\<lambda>q. q \<in> {''/a/b'', ''/a/c'', ''/a/b/c''}) ps"
      using f(1) by (simp only: fs_def)
    from match_list_cap[OF that, of "''/a/*''" 0 ps] obtain m' where
      m1: "match_list ''/a/*'' msize (int 0) m ps = Some (int (0 + length fs), m')"
      and m2: "length m' = length m"
      and m3: "\<forall>i<length m. m' ! i =
          (if 0 \<le> i \<and> int i < msize \<and> i < 0 + length fs
           then Some (fs ! (i - 0)) else m ! i)" unfolding fs_def by blast
    from m1 have "aug_match ''/a/*'' m msize s = Some (3, m')" unfolding am l by simp
    moreover from m3 have "\<forall>i<length m. m' ! i =
                       (if int i < msize \<and> i < 3 then Some (fs ! i) else m ! i)"
      unfolding l by simp
    ultimately show ?thesis using m2 unfolding e by blast
  qed
  ultimately show ?thesis by blast
qed

theorem match_star_counts_descendants_witness:
  "circular store_a_b_c_bc
   \<and> paths store_a_b_c_bc
       = Some [''/system'', ''/system/config'', ''/a'', ''/a/b'', ''/a/c'', ''/a/b/c'']
   \<and> aug_match ''/a/*'' [None, None] 0 store_a_b_c_bc = Some (3, [None, None])"
proof -
  have c: "circular store_a_b_c_bc" by code_simp
  have p: "paths store_a_b_c_bc
       = Some [''/system'', ''/system/config'', ''/a'', ''/a/b'', ''/a/c'', ''/a/b/c'']"
    by code_simp
  from match_star_counts_descendants[OF c p refl, of "[None, None]" 0]
  have "aug_match ''/a/*'' [None, None] 0 store_a_b_c_bc = Some (3, [None, None])" by simp
  with c p show ?thesis by simp
qed

text \<open>
  C9: on every well-formed store whose entries are the sentinels and \<^verbatim>\<open>/a\<close>,
  \<^verbatim>\<open>/a/b\<close>, \<^verbatim>\<open>/a/b/c\<close> (in any list order), \<^verbatim>\<open>aug_ls\<close> of \<^verbatim>\<open>/a\<close>
  returns 1, and when the caller asks for the children and the array can be allocated, the
  array is exactly \<^verbatim>\<open>/a/b\<close>: not the deeper \<^verbatim>\<open>/a/b/c\<close>, not \<^verbatim>\<open>/a\<close> itself.
\<close>

theorem ls_lists_immediate_children:
  assumes "circular s" and "paths s = Some ps"
    and "mset ps = mset [''/system'', ''/system/config'', ''/a'', ''/a/b'', ''/a/b/c'']"
  shows "aug_ls ''/a'' False s = Some ((1, None), s)
         \<and> (alloc_ok s = [] \<or> hd (alloc_ok s) \<longrightarrow>
              aug_ls ''/a'' True s
              = Some ((1, Some [Some ''/a/b'']), s\<lparr>alloc_ok := tl (alloc_ok s)\<rparr>))"
proof -
  from assms(1,2) obtain xs where r: "ring s xs" and p: "map (pth s) xs = ps"
    by (rule circular_paths)
  have fs: "[''/a/b''] = filter (ls_child ''/a'') (map (pth s) xs)"
    unfolding p filter_five[OF assms(3)] ..
  show ?thesis unfolding aug_ls_ring[OF r fs] by simp
qed

theorem ls_lists_immediate_children_witness:
  "circular store_a_b_bc
   \<and> paths store_a_b_bc = Some [''/system'', ''/system/config'', ''/a'', ''/a/b'', ''/a/b/c'']
   \<and> alloc_ok store_a_b_bc = []
   \<and> aug_ls ''/a'' False store_a_b_bc = Some ((1, None), store_a_b_bc)
   \<and> map_option fst (aug_ls ''/a'' True store_a_b_bc) = Some (1, Some [Some ''/a/b''])"
proof -
  have c: "circular store_a_b_bc" by code_simp
  have p: "paths store_a_b_bc = Some [''/system'', ''/system/config'', ''/a'', ''/a/b'', ''/a/b/c'']"
    by code_simp
  have a: "alloc_ok store_a_b_bc = []" by code_simp
  from ls_lists_immediate_children[OF c p refl] a
  show ?thesis using c p by simp
qed

text \<open>
  C10: the sentinels are ordinary entries for the read operations. On the store that
  \<^verbatim>\<open>aug_init\<close> leaves when no provider loads anything, \<^verbatim>\<open>aug_match\<close> with the
  pattern \<^verbatim>\<open>*\<close> returns 2 and writes \<^verbatim>\<open>/system\<close> and \<^verbatim>\<open>/system/config\<close>,
  \<^verbatim>\<open>aug_ls\<close> of \<^verbatim>\<open>/system\<close> returns 1 with the child \<^verbatim>\<open>/system/config\<close>,
  and \<^verbatim>\<open>aug_exists\<close> of \<^verbatim>\<open>/system\<close> is true.
\<close>

theorem sentinels_are_ordinary_entries:
  "map_option fst (aug_init [] (empty_store [])) = Some 0
   \<and> paths after_init = Some [''/system'', ''/system/config'']
   \<and> aug_match ''*'' [None, None, None] 3 after_init
     = Some (2, [Some ''/system'', Some ''/system/config'', None])
   \<and> map_option fst (aug_ls ''/system'' True after_init)
     = Some (1, Some [Some ''/system/config''])
   \<and> map_option fst (aug_ls ''/system'' False after_init) = Some (1, None)
   \<and> aug_exists ''/system'' after_init = Some 1"
  by code_simp

end
